theory Spec2Isabelle
  imports Main "HOL-Library.Word" "HOL-Library.Code_Target_Nat"
begin

unbundle bit_operations_syntax

section \<open>Pack: data model (src/common/type/pack.c)\<close>

type_synonym byte = "8 word"
type_synonym u32 = "32 word"
type_synonym u64 = "64 word"

text \<open>
  \<open>PackType\<close>: the constructors are listed in the order of the \<open>packTypeData\<close> table,
  which the code indexes by the type itself (\<open>packTypeData[type]\<close>), so the position in
  the table is the ordinal of the type.
\<close>

datatype PackType =
    pckTypeUnknown
  | pckTypeArray
  | pckTypeBin
  | pckTypeBool
  | pckTypeI32
  | pckTypeI64
  | pckTypeObj
  | pckTypePtr
  | pckTypeStr
  | pckTypeTime
  | pckTypeU32
  | pckTypeU64

fun packTypeOrd :: "PackType \<Rightarrow> nat" where
  "packTypeOrd pckTypeUnknown = 0"
| "packTypeOrd pckTypeArray = 1"
| "packTypeOrd pckTypeBin = 2"
| "packTypeOrd pckTypeBool = 3"
| "packTypeOrd pckTypeI32 = 4"
| "packTypeOrd pckTypeI64 = 5"
| "packTypeOrd pckTypeObj = 6"
| "packTypeOrd pckTypePtr = 7"
| "packTypeOrd pckTypeStr = 8"
| "packTypeOrd pckTypeTime = 9"
| "packTypeOrd pckTypeU32 = 10"
| "packTypeOrd pckTypeU64 = 11"

text \<open>
  The type stored in the high nibble of a tag. The nibbles 12..15 index \<open>packTypeData\<close>
  beyond its end; the model gives \<open>None\<close> for them.
\<close>

definition packTypeOfOrd :: "nat \<Rightarrow> PackType option" where
  "packTypeOfOrd n =
     (if n = 0 then Some pckTypeUnknown
      else if n = 1 then Some pckTypeArray
      else if n = 2 then Some pckTypeBin
      else if n = 3 then Some pckTypeBool
      else if n = 4 then Some pckTypeI32
      else if n = 5 then Some pckTypeI64
      else if n = 6 then Some pckTypeObj
      else if n = 7 then Some pckTypePtr
      else if n = 8 then Some pckTypeStr
      else if n = 9 then Some pckTypeTime
      else if n = 10 then Some pckTypeU32
      else if n = 11 then Some pckTypeU64
      else None)"

record PackTypeData =
  valueSingleBit :: bool
  valueMultiBit :: bool
  sizeFlag :: bool
  name :: string

definition ptd :: "bool \<Rightarrow> bool \<Rightarrow> bool \<Rightarrow> string \<Rightarrow> PackTypeData" where
  "ptd s m z n = \<lparr>valueSingleBit = s, valueMultiBit = m, sizeFlag = z, name = n\<rparr>"

fun packTypeData :: "PackType \<Rightarrow> PackTypeData" where
  "packTypeData pckTypeUnknown = ptd False False False ''unknown''"
| "packTypeData pckTypeArray = ptd False False False ''array''"
| "packTypeData pckTypeBin = ptd True False True ''bin''"
| "packTypeData pckTypeBool = ptd True False False ''bool''"
| "packTypeData pckTypeI32 = ptd False True False ''i32''"
| "packTypeData pckTypeI64 = ptd False True False ''i64''"
| "packTypeData pckTypeObj = ptd False False False ''obj''"
| "packTypeData pckTypePtr = ptd False True False ''ptr''"
| "packTypeData pckTypeStr = ptd True False True ''str''"
| "packTypeData pckTypeTime = ptd False True False ''time''"
| "packTypeData pckTypeU32 = ptd False True False ''u32''"
| "packTypeData pckTypeU64 = ptd False True False ''u64''"

definition PACK_UINT64_SIZE_MAX :: nat where
  "PACK_UINT64_SIZE_MAX = 10"

subsection \<open>Errors\<close>

text \<open>
  \<open>THROW(FormatError, msg)\<close> and \<open>THROW_FMT(FormatError, fmt, args)\<close> become
  \<open>FormatError fmt args\<close>: the format string as the source has it and its arguments.
  A failed \<open>ASSERT\<close> is \<open>AssertError\<close>. \<open>TypeOutOfRange\<close> stands for the read of
  \<open>packTypeData\<close> beyond its last entry (tag nibbles 12..15), which C leaves undefined.
\<close>

datatype fmtArg = ArgUInt u32 | ArgStr string

datatype error =
    FormatError string "fmtArg list"
  | AssertError
  | TypeOutOfRange

subsection \<open>Reader and writer state\<close>

record PackTagStack =
  frameType :: PackType
  idLast :: u32
  nullTotal :: u32

text \<open>
  \<open>struct PackRead\<close>. \<open>read\<close> is the \<open>IoRead\<close> source, as the bytes it has not delivered
  yet (\<open>None\<close> when the pack is read from a buffer). \<open>bufferSizeAlloc\<close> is
  \<open>bufSizeAlloc(this->buffer)\<close>, \<open>bufferPtr\<close> the memory \<open>this->bufferPtr\<close> points to.
  \<open>tagStackTop\<close> points to the last element of \<open>tagStack\<close>: the model keeps that element
  in \<open>tagStackTop\<close> and the elements beneath it in \<open>tagStack\<close> (innermost first), so
  \<open>lstSize(this->tagStack)\<close> is \<open>length (tagStack r) + 1\<close>.
\<close>

record PackRead =
  read :: "byte list option"
  bufferSizeAlloc :: nat
  bufferPtr :: "byte list"
  bufferPos :: nat
  bufferMax :: nat
  tagNextId :: u32
  tagNextType :: PackType
  tagNextValue :: u64
  tagStack :: "PackTagStack list"
  tagStackTop :: PackTagStack

text \<open>
  \<open>struct PackWrite\<close>. \<open>writeSink\<close> (\<open>this->write\<close>) is the \<open>IoWrite\<close> sink, as the bytes it has received
  (\<open>None\<close> when the pack is written to a buffer); \<open>buffer\<close> is the used part of
  \<open>this->buffer\<close> and \<open>bufferSize\<close> its capacity.
\<close>

record PackWrite =
  writeSink :: "byte list option"
  buffer :: "byte list"
  bufferSize :: nat
  wTagStack :: "PackTagStack list"
  wTagStackTop :: PackTagStack

definition tagStackNew :: "PackType \<Rightarrow> PackTagStack" where
  "tagStackNew t = \<lparr>frameType = t, idLast = 0, nullTotal = 0\<rparr>"

section \<open>Reader\<close>

definition pckReadNew :: "byte list \<Rightarrow> nat \<Rightarrow> PackRead" where
  "pckReadNew src ioBufferSize =
     \<lparr>read = Some src, bufferSizeAlloc = ioBufferSize, bufferPtr = [], bufferPos = 0,
      bufferMax = 0, tagNextId = 0, tagNextType = pckTypeUnknown, tagNextValue = 0,
      tagStack = [], tagStackTop = tagStackNew pckTypeObj\<rparr>"

definition pckReadNewBuf :: "byte list \<Rightarrow> PackRead" where
  "pckReadNewBuf buf =
     \<lparr>read = None, bufferSizeAlloc = 0, bufferPtr = buf, bufferPos = 0,
      bufferMax = length buf, tagNextId = 0, tagNextType = pckTypeUnknown, tagNextValue = 0,
      tagStack = [], tagStackTop = tagStackNew pckTypeObj\<rparr>"

text \<open>
  Modelled from the spec: \<open>ioReadSmall\<close> (common/io/read.c) is not part of the sources at
  hand. By the I/O source contract of the spec (6.2) a read fills the buffer to exactly
  its limit unless the end of the stream is reached: it delivers the first \<open>limit\<close> bytes
  of what the source still holds, all of them when there are fewer.
\<close>

definition ioReadSmall :: "byte list \<Rightarrow> nat \<Rightarrow> byte list \<times> byte list" where
  "ioReadSmall src limit = (take limit src, drop limit src)"

text \<open>\<open>pckReadBuffer\<close>: returns the number of bytes available at \<open>bufferPos\<close>.\<close>

definition pckReadBuffer :: "PackRead \<Rightarrow> nat \<Rightarrow> error + (nat \<times> PackRead)" where
  "pckReadBuffer this sz =
     (let remaining = bufferMax this - bufferPos this in
      if remaining < sz then
        (case read this of
           Some src \<Rightarrow>
             if remaining \<noteq> 0 then Inl AssertError
             else
               (let (got, src') = ioReadSmall src (if sz < bufferSizeAlloc this then sz else bufferSizeAlloc this);
                    this' = this\<lparr>read := Some src', bufferPtr := got, bufferPos := 0, bufferMax := length got\<rparr>;
                    remaining' = bufferMax this' - bufferPos this'
                in if remaining' < 1 then Inl (FormatError ''unexpected EOF'' [])
                   else Inr (if remaining' < sz then remaining' else sz, this'))
         | None \<Rightarrow>
             if remaining < 1 then Inl (FormatError ''unexpected EOF'' [])
             else Inr (if remaining < sz then remaining else sz, this))
      else Inr (sz, this))"

text \<open>
  The \<open>for\<close> loop of \<open>pckReadUInt64Internal\<close>: \<open>bufferIdx\<close> runs from its argument up to
  \<open>PACK_UINT64_SIZE_MAX\<close>; the result is \<open>result\<close>, the last \<open>byte\<close> read and the reader.
\<close>

function pckReadUInt64Loop ::
  "PackRead \<Rightarrow> nat \<Rightarrow> u64 \<Rightarrow> byte \<Rightarrow> error + (u64 \<times> byte \<times> PackRead)" where
  "pckReadUInt64Loop this bufferIdx result byte =
     (if bufferIdx < PACK_UINT64_SIZE_MAX then
        (case pckReadBuffer this 1 of
           Inl e \<Rightarrow> Inl e
         | Inr (n, this1) \<Rightarrow>
             (let byte' = bufferPtr this1 ! bufferPos this1;
                  result' = result OR push_bit (7 * bufferIdx) (ucast (byte' AND 0x7f))
              in if byte' < 0x80 then Inr (result', byte', this1)
                 else pckReadUInt64Loop (this1\<lparr>bufferPos := bufferPos this1 + 1\<rparr>)
                        (bufferIdx + 1) result' byte'))
      else Inr (result, byte, this))"
  by pat_completeness auto
termination
  by (relation "measure (\<lambda>(this, bufferIdx, result, byte). PACK_UINT64_SIZE_MAX - bufferIdx)") auto

declare pckReadUInt64Loop.simps [simp del]

definition pckReadUInt64Internal :: "PackRead \<Rightarrow> error + (u64 \<times> PackRead)" where
  "pckReadUInt64Internal this =
     (case pckReadUInt64Loop this 0 0 0 of
        Inl e \<Rightarrow> Inl e
      | Inr (result, byte, this1) \<Rightarrow>
          if byte \<ge> 0x80 then Inl (FormatError ''unterminated base-128 integer'' [])
          else Inr (result, this1\<lparr>bufferPos := bufferPos this1 + 1\<rparr>))"

subsection \<open>Termination measure of the reader's loops\<close>

text \<open>The bytes the reader can still consume: those left in its buffer and in the source.\<close>

definition remainingBytes :: "PackRead \<Rightarrow> nat" where
  "remainingBytes this =
     (bufferMax this - bufferPos this) + (case read this of None \<Rightarrow> 0 | Some src \<Rightarrow> length src)"

lemma pckReadBuffer_avail:
  assumes "pckReadBuffer this sz = Inr (k, this1)" and "sz \<noteq> 0"
  shows "1 \<le> k" and "k \<le> sz" and "k \<le> bufferMax this1 - bufferPos this1"
    and "remainingBytes this1 = remainingBytes this"
  using assms
  by (auto simp: pckReadBuffer_def ioReadSmall_def remainingBytes_def Let_def Suc_le_eq
      split: if_splits option.splits)

text \<open>
  The loops that fetch a payload of \<open>n\<close> bytes: of \<open>pckReadBin\<close>
  (\<open>while (bufUsed(result) < bufSize(result))\<close>), of \<open>pckReadStr\<close>
  (\<open>while (strSize(result) != sizeExpected)\<close>) and of the skip in \<open>pckReadTag\<close>
  (\<open>while (sizeExpected != 0)\<close>). \<open>n\<close> is the number of bytes still missing, which is what
  each of the three hands to \<open>pckReadBuffer\<close>; each loop ends when it is zero.
\<close>

function pckReadBytes :: "PackRead \<Rightarrow> nat \<Rightarrow> byte list \<Rightarrow> error + (byte list \<times> PackRead)" where
  "pckReadBytes this n result =
     (if n \<noteq> 0 then
        (case pckReadBuffer this n of
           Inl e \<Rightarrow> Inl e
         | Inr (k, this1) \<Rightarrow>
             pckReadBytes (this1\<lparr>bufferPos := bufferPos this1 + k\<rparr>) (n - k)
               (result @ take k (drop (bufferPos this1) (bufferPtr this1))))
      else Inr (result, this))"
  by pat_completeness auto
termination
proof (relation "measure (\<lambda>(this, n, result). n)")
  show "wf (measure (\<lambda>(this, n, result). n))" by simp
next
  fix this :: PackRead and n :: nat and result :: "byte list" and x2 k this1
  assume "n \<noteq> 0" and "pckReadBuffer this n = Inr x2" and "(k, this1) = x2"
  then have "1 \<le> k" using pckReadBuffer_avail(1) [of this n k this1] by simp
  with \<open>n \<noteq> 0\<close>
  show "((this1\<lparr>bufferPos := bufferPos this1 + k\<rparr>, n - k,
          result @ take k (drop (bufferPos this1) (bufferPtr this1))), (this, n, result))
        \<in> measure (\<lambda>(this, n, result). n)"
    by simp
qed

declare pckReadBytes.simps [simp del]

text \<open>
  The ID delta of a tag: its low bits \<open>low\<close> come from the tag; when the tag's "more ID
  delta" bit is set (\<open>moreId\<close>) the higher bits follow as a base-128 integer:
  \<open>this->tagNextId |= (unsigned int)pckReadUInt64Internal(this) << shift\<close>.
\<close>

definition pckReadTagId :: "PackRead \<Rightarrow> u32 \<Rightarrow> bool \<Rightarrow> nat \<Rightarrow> error + (u32 \<times> PackRead)" where
  "pckReadTagId this low moreId shift =
     (if moreId then
        (case pckReadUInt64Internal this of
           Inl e \<Rightarrow> Inl e
         | Inr (v, this1) \<Rightarrow> Inr (low OR push_bit shift (ucast v), this1))
      else Inr (low, this))"

definition pckReadTagNext :: "PackRead \<Rightarrow> error + (bool \<times> PackRead)" where
  "pckReadTagNext this =
     (case pckReadBuffer this 1 of
        Inl e \<Rightarrow> Inl e
      | Inr (n, this1) \<Rightarrow>
          (let tag = (ucast (bufferPtr this1 ! bufferPos this1) :: u32);
               this2 = this1\<lparr>bufferPos := bufferPos this1 + 1\<rparr>
           in if tag = 0 then Inr (False, this2\<lparr>tagNextId := 0xFFFFFFFF\<rparr>)
              else
                (case packTypeOfOrd (unat (drop_bit 4 tag)) of
                   None \<Rightarrow> Inl TypeOutOfRange
                 | Some ty \<Rightarrow>
                     (let this3 = this2\<lparr>tagNextType := ty\<rparr> in
                      case
                        (if valueMultiBit (packTypeData ty) then
                           (if tag AND 0x8 \<noteq> 0 then
                              (case pckReadTagId this3 (tag AND 0x3) (tag AND 0x4 \<noteq> 0) 2 of
                                 Inl e \<Rightarrow> Inl e
                               | Inr (tid, this4) \<Rightarrow>
                                   (case pckReadUInt64Internal this4 of
                                      Inl e \<Rightarrow> Inl e
                                    | Inr (v, this5) \<Rightarrow> Inr (tid, v, this5)))
                            else
                              (case pckReadTagId this3 (tag AND 0x1) (tag AND 0x2 \<noteq> 0) 1 of
                                 Inl e \<Rightarrow> Inl e
                               | Inr (tid, this4) \<Rightarrow> Inr (tid, ucast (drop_bit 2 tag AND 0x1), this4)))
                         else if valueSingleBit (packTypeData ty) then
                           (case pckReadTagId this3 (tag AND 0x3) (tag AND 0x4 \<noteq> 0) 2 of
                              Inl e \<Rightarrow> Inl e
                            | Inr (tid, this4) \<Rightarrow> Inr (tid, ucast (drop_bit 3 tag AND 0x1), this4))
                         else
                           (case pckReadTagId this3 (tag AND 0x7) (tag AND 0x8 \<noteq> 0) 3 of
                              Inl e \<Rightarrow> Inl e
                            | Inr (tid, this4) \<Rightarrow> Inr (tid, 0, this4)))
                      of
                        Inl e \<Rightarrow> Inl e
                      | Inr (tid, v, this6) \<Rightarrow>
                          Inr (True, this6\<lparr>tagNextId := tid + (idLast (tagStackTop this6) + 1),
                                           tagNextValue := v\<rparr>)))))"

lemma pckReadUInt64Loop_remaining:
  "pckReadUInt64Loop this i r b = Inr (r', b', this1) \<Longrightarrow>
     remainingBytes this1 \<le> remainingBytes this"
proof (induction this i r b rule: pckReadUInt64Loop.induct)
  case (1 this bufferIdx result byte)
  show ?case
  proof (cases "bufferIdx < PACK_UINT64_SIZE_MAX")
    case False
    with "1.prems" show ?thesis by (simp add: pckReadUInt64Loop.simps [of this])
  next
    case True
    from True "1.prems" obtain n th where rb: "pckReadBuffer this 1 = Inr (n, th)"
      by (auto simp: pckReadUInt64Loop.simps [of this] split: sum.splits)
    from pckReadBuffer_avail [OF rb]
    have av: "remainingBytes th = remainingBytes this"
      by simp
    show ?thesis
    proof (cases "bufferPtr th ! bufferPos th < 0x80")
      case True
      with \<open>bufferIdx < PACK_UINT64_SIZE_MAX\<close> "1.prems" rb av show ?thesis
        by (auto simp: Let_def pckReadUInt64Loop.simps [of this])
    next
      case False
      let ?th' = "th\<lparr>bufferPos := bufferPos th + 1\<rparr>"
      let ?b = "bufferPtr th ! bufferPos th"
      let ?r = "result OR push_bit (7 * bufferIdx) (ucast (?b AND 0x7f))"
      from False \<open>bufferIdx < PACK_UINT64_SIZE_MAX\<close> "1.prems" rb
      have rec: "pckReadUInt64Loop ?th' (bufferIdx + 1) ?r ?b = Inr (r', b', this1)"
        by (simp add: Let_def pckReadUInt64Loop.simps [of this])
      have "remainingBytes this1 \<le> remainingBytes ?th'"
        using "1.IH" [OF \<open>bufferIdx < PACK_UINT64_SIZE_MAX\<close> rb refl refl refl False rec] by simp
      moreover have "remainingBytes ?th' \<le> remainingBytes this"
        using av by (simp add: remainingBytes_def)
      ultimately show ?thesis
        by simp
    qed
  qed
qed

lemma pckReadUInt64Internal_remaining:
  "pckReadUInt64Internal this = Inr (v, this1) \<Longrightarrow> remainingBytes this1 \<le> remainingBytes this"
  by (auto simp: pckReadUInt64Internal_def remainingBytes_def
      split: sum.splits if_splits dest!: pckReadUInt64Loop_remaining)

lemma pckReadTagId_remaining:
  "pckReadTagId this low m sh = Inr (tid, this1) \<Longrightarrow> remainingBytes this1 \<le> remainingBytes this"
  by (auto simp: pckReadTagId_def split: if_splits sum.splits dest: pckReadUInt64Internal_remaining)

lemma pckReadTagNext_remaining:
  assumes "pckReadTagNext this = Inr (b, this1)"
  shows "remainingBytes this1 < remainingBytes this"
proof -
  from assms obtain n th where rb: "pckReadBuffer this 1 = Inr (n, th)"
    by (auto simp: pckReadTagNext_def split: sum.splits)
  let ?th2 = "th\<lparr>bufferPos := bufferPos th + 1\<rparr>"
  from pckReadBuffer_avail [OF rb]
  have lt: "remainingBytes ?th2 < remainingBytes this"
    by (auto simp: remainingBytes_def)
  have upd: "remainingBytes (x\<lparr>tagNextType := t\<rparr>) = remainingBytes x"
    "remainingBytes (x\<lparr>tagNextId := i\<rparr>) = remainingBytes x"
    "remainingBytes (x\<lparr>tagNextId := i, tagNextValue := v\<rparr>) = remainingBytes x"
    for x :: PackRead and t i v
    by (simp_all add: remainingBytes_def)
  have "remainingBytes this1 \<le> remainingBytes ?th2"
    using assms rb
    by (auto simp: pckReadTagNext_def Let_def upd
        split: sum.splits if_splits option.splits
        dest!: pckReadTagId_remaining pckReadUInt64Internal_remaining)
  with lt show ?thesis by simp
qed

lemma pckReadBytes_remaining:
  "pckReadBytes this n acc = Inr (res, this1) \<Longrightarrow> remainingBytes this1 \<le> remainingBytes this"
proof (induction this n acc rule: pckReadBytes.induct)
  case (1 this n result)
  show ?case
  proof (cases "n = 0")
    case True
    with "1.prems" show ?thesis by (simp add: pckReadBytes.simps [of this])
  next
    case False
    from False "1.prems" obtain k th where rb: "pckReadBuffer this n = Inr (k, th)"
      by (auto simp: pckReadBytes.simps [of this] split: sum.splits)
    let ?th' = "th\<lparr>bufferPos := bufferPos th + k\<rparr>"
    from False "1.prems" rb
    have rec: "pckReadBytes ?th' (n - k) (result @ take k (drop (bufferPos th) (bufferPtr th)))
               = Inr (res, this1)"
      by (simp add: pckReadBytes.simps [of this])
    have "remainingBytes this1 \<le> remainingBytes ?th'"
      using "1.IH" [OF False rb refl rec] .
    moreover have "remainingBytes ?th' \<le> remainingBytes this"
      using pckReadBuffer_avail(4) [OF rb False] by (simp add: remainingBytes_def)
    ultimately show ?thesis by simp
  qed
qed

definition fmtFieldType :: string where
  "fmtFieldType = ''field %u is type '' @ [CHR 0x27] @ ''%s'' @ [CHR 0x27] @
     '' but expected '' @ [CHR 0x27] @ ''%s'' @ [CHR 0x27]"

text \<open>\<open>this->tagStackTop->idLast = this->tagNextId; this->tagNextId = 0;\<close>\<close>

definition pckReadTagDone :: "PackRead \<Rightarrow> PackRead" where
  "pckReadTagDone this =
     this\<lparr>tagStackTop := (tagStackTop this)\<lparr>idLast := tagNextId this\<rparr>, tagNextId := 0\<rparr>"

text \<open>The data of a field that is skipped (the \<open>if\<close> after the \<open>else if\<close> chain of the loop).\<close>

definition pckReadTagSkip :: "PackRead \<Rightarrow> PackType \<Rightarrow> error + PackRead" where
  "pckReadTagSkip this type =
     (if sizeFlag (packTypeData type) \<and> tagNextValue this \<noteq> 0 then
        (case pckReadUInt64Internal this of
           Inl e \<Rightarrow> Inl e
         | Inr (sizeExpected, this1) \<Rightarrow>
             (case pckReadBytes this1 (unat sizeExpected) [] of
                Inl e \<Rightarrow> Inl e
              | Inr (skipped, this2) \<Rightarrow> Inr this2))
      else Inr this)"

text \<open>\<open>if (this->tagNextId == 0) pckReadTagNext(this);\<close>\<close>

definition pckReadTagFill :: "PackRead \<Rightarrow> error + PackRead" where
  "pckReadTagFill this =
     (if tagNextId this = 0 then
        (case pckReadTagNext this of Inl e \<Rightarrow> Inl e | Inr (b, this1) \<Rightarrow> Inr this1)
      else Inr this)"

lemma pckReadTagSkip_remaining:
  "pckReadTagSkip this type = Inr this1 \<Longrightarrow>
     remainingBytes this1 \<le> remainingBytes this"
  by (auto simp: pckReadTagSkip_def split: if_splits sum.splits
      dest!: pckReadUInt64Internal_remaining pckReadBytes_remaining)

text \<open>
  The \<open>do ... while (1)\<close> loop of \<open>pckReadTag\<close>, with \<open>fid\<close> the value of \<open>*id\<close>. The result
  is \<open>this->tagNextValue\<close> and the reader.
\<close>

function pckReadTagLoop :: "PackRead \<Rightarrow> u32 \<Rightarrow> PackType \<Rightarrow> bool \<Rightarrow> error + (u64 \<times> PackRead)" where
  "pckReadTagLoop this fid type peek =
     (case pckReadTagFill this of
        Inl e \<Rightarrow> Inl e
      | Inr this1 \<Rightarrow>
          if fid < tagNextId this1 then
            (if \<not> peek then Inl (FormatError ''field %u does not exist'' [ArgUInt fid])
             else Inr (tagNextValue this1, this1))
          else if fid = tagNextId this1 then
            (if \<not> peek then
               (if tagNextType this1 \<noteq> type then
                  Inl (FormatError fmtFieldType
                        [ArgUInt (tagNextId this1), ArgStr (name (packTypeData (tagNextType this1))),
                         ArgStr (name (packTypeData type))])
                else Inr (tagNextValue this1, pckReadTagDone this1))
             else Inr (tagNextValue this1, this1))
          else
            (case pckReadTagSkip this1 type of
               Inl e \<Rightarrow> Inl e
             | Inr this2 \<Rightarrow> pckReadTagLoop (pckReadTagDone this2) fid type peek))"
  by pat_completeness auto
termination
proof (relation "measure (\<lambda>(this, fid, type, peek).
         2 * remainingBytes this + (if tagNextId this = 0 then 0 else 1))")
  show "wf (measure (\<lambda>(this, fid, type, peek).
         2 * remainingBytes this + (if tagNextId this = 0 then 0 else (1::nat))))"
    by simp
next
  fix this :: PackRead and fid :: u32 and type :: PackType and peek :: bool and this1 this2
  assume fill: "pckReadTagFill this = Inr this1" and skip: "pckReadTagSkip this1 type = Inr this2"
  have dn: "remainingBytes (pckReadTagDone this2) = remainingBytes this2"
    "tagNextId (pckReadTagDone this2) = 0"
    by (simp_all add: pckReadTagDone_def remainingBytes_def)
  have le: "remainingBytes this2 \<le> remainingBytes this1"
    using pckReadTagSkip_remaining [OF skip] .
  have "2 * remainingBytes this1 < 2 * remainingBytes this + (if tagNextId this = 0 then 0 else 1)"
    using fill
    by (auto simp: pckReadTagFill_def split: if_splits sum.splits dest!: pckReadTagNext_remaining)
  with le dn
  show "((pckReadTagDone this2, fid, type, peek), (this, fid, type, peek))
        \<in> measure (\<lambda>(this, fid, type, peek).
             2 * remainingBytes this + (if tagNextId this = 0 then 0 else 1))"
    by simp
qed

declare pckReadTagLoop.simps [simp del]

text \<open>
  \<open>pckReadTag\<close>. The in/out parameter \<open>*id\<close> is the argument \<open>fid\<close> and the first
  component of the result; the second is the returned \<open>this->tagNextValue\<close>.
\<close>

definition pckReadTag ::
  "PackRead \<Rightarrow> u32 \<Rightarrow> PackType \<Rightarrow> bool \<Rightarrow> error + (u32 \<times> u64 \<times> PackRead)" where
  "pckReadTag this fid type peek =
     (if \<not> ((peek \<and> type = pckTypeUnknown) \<or> (\<not> peek \<and> type \<noteq> pckTypeUnknown))
      then Inl AssertError
      else if fid \<noteq> 0 \<and> fid \<le> idLast (tagStackTop this)
      then Inl (FormatError ''field %u was already read'' [ArgUInt fid])
      else
        (let fid1 = (if fid = 0 then idLast (tagStackTop this) + 1 else fid) in
         case pckReadTagLoop this fid1 type peek of
           Inl e \<Rightarrow> Inl e
         | Inr (v, this1) \<Rightarrow> Inr (fid1, v, this1)))"

definition pckReadNext :: "PackRead \<Rightarrow> error + (bool \<times> PackRead)" where
  "pckReadNext this = pckReadTagNext this"

definition pckReadId :: "PackRead \<Rightarrow> u32" where
  "pckReadId this = tagNextId this"

definition pckReadType :: "PackRead \<Rightarrow> PackType" where
  "pckReadType this = tagNextType this"

definition pckReadNullInternal :: "PackRead \<Rightarrow> u32 \<Rightarrow> error + (bool \<times> u32 \<times> PackRead)" where
  "pckReadNullInternal this fid =
     (case pckReadTag this fid pckTypeUnknown True of
        Inl e \<Rightarrow> Inl e
      | Inr (fid1, v, this1) \<Rightarrow> Inr (fid1 < tagNextId this1, fid1, this1))"

definition pckReadNull :: "PackRead \<Rightarrow> u32 \<Rightarrow> error + (bool \<times> PackRead)" where
  "pckReadNull this fid =
     (case pckReadNullInternal this fid of
        Inl e \<Rightarrow> Inl e
      | Inr (b, fid1, this1) \<Rightarrow> Inr (b, this1))"

definition pckReadDefaultNull ::
  "PackRead \<Rightarrow> bool \<Rightarrow> u32 \<Rightarrow> error + (bool \<times> u32 \<times> PackRead)" where
  "pckReadDefaultNull this defaultNull fid =
     (if defaultNull then
        (case pckReadNullInternal this fid of
           Inl e \<Rightarrow> Inl e
         | Inr (b, fid1, this1) \<Rightarrow>
             if b then Inr (True, fid1, this1\<lparr>tagStackTop := (tagStackTop this1)\<lparr>idLast := fid1\<rparr>\<rparr>)
             else Inr (False, fid1, this1))
      else Inr (False, fid, this))"

text \<open>
  The body the typed reads share: \<open>pckReadDefaultNull\<close>, and when it returns false
  \<open>pckReadTag\<close> with \<open>peek = false\<close>. \<open>None\<close> stands for the default being returned,
  \<open>Some v\<close> for the value \<open>v\<close> that \<open>pckReadTag\<close> returns.
\<close>

definition pckReadField ::
  "PackRead \<Rightarrow> u32 \<Rightarrow> bool \<Rightarrow> PackType \<Rightarrow> error + (u64 option \<times> PackRead)" where
  "pckReadField this fid defaultNull type =
     (case pckReadDefaultNull this defaultNull fid of
        Inl e \<Rightarrow> Inl e
      | Inr (isNull, fid1, this1) \<Rightarrow>
          if isNull then Inr (None, this1)
          else
            (case pckReadTag this1 fid1 type False of
               Inl e \<Rightarrow> Inl e
             | Inr (fid2, v, this2) \<Rightarrow> Inr (Some v, this2)))"

text \<open>
  Modelled from the spec: \<open>cvtInt32ToZigZag\<close>, \<open>cvtInt64ToZigZag\<close> and their inverses
  (common/type/convert.h) are not part of the sources at hand. The spec gives the
  mapping as \<open>(n << 1) ^ (n >> (W - 1))\<close> with an arithmetic right shift; the inverse is
  \<open>(u >> 1) ^ -(u & 1)\<close>. Signed integers are words read in two's complement.
\<close>

definition cvtInt32ToZigZag :: "32 word \<Rightarrow> u32" where
  "cvtInt32ToZigZag v = push_bit 1 v XOR signed_drop_bit 31 v"

definition cvtInt32FromZigZag :: "u32 \<Rightarrow> 32 word" where
  "cvtInt32FromZigZag u = drop_bit 1 u XOR (- (u AND 1))"

definition cvtInt64ToZigZag :: "64 word \<Rightarrow> u64" where
  "cvtInt64ToZigZag v = push_bit 1 v XOR signed_drop_bit 63 v"

definition cvtInt64FromZigZag :: "u64 \<Rightarrow> 64 word" where
  "cvtInt64FromZigZag u = drop_bit 1 u XOR (- (u AND 1))"

definition pckReadPush :: "PackRead \<Rightarrow> PackType \<Rightarrow> PackRead" where
  "pckReadPush this t = this\<lparr>tagStack := tagStackTop this # tagStack this, tagStackTop := tagStackNew t\<rparr>"

definition pckReadArrayBegin :: "PackRead \<Rightarrow> u32 \<Rightarrow> error + PackRead" where
  "pckReadArrayBegin this fid =
     (case pckReadTag this fid pckTypeArray False of
        Inl e \<Rightarrow> Inl e
      | Inr (fid1, v, this1) \<Rightarrow> Inr (pckReadPush this1 pckTypeArray))"

text \<open>
  The end of a container, shared by \<open>pckReadArrayEnd\<close> and \<open>pckReadObjEnd\<close> after their
  check: read up to ID \<open>0xFFFFFFFF - 1\<close> with \<open>peek\<close>, pop the stack, reset \<open>tagNextId\<close>.
\<close>

definition pckReadContainerEnd :: "PackRead \<Rightarrow> error + PackRead" where
  "pckReadContainerEnd this =
     (case pckReadTag this (0xFFFFFFFF - 1) pckTypeUnknown True of
        Inl e \<Rightarrow> Inl e
      | Inr (fid1, v, this1) \<Rightarrow>
          (case tagStack this1 of
             [] \<Rightarrow> Inl AssertError
           | t # ts \<Rightarrow> Inr (this1\<lparr>tagStack := ts, tagStackTop := t, tagNextId := 0\<rparr>)))"

definition pckReadArrayEnd :: "PackRead \<Rightarrow> error + PackRead" where
  "pckReadArrayEnd this =
     (if length (tagStack this) + 1 = 1 \<or> frameType (tagStackTop this) \<noteq> pckTypeArray
      then Inl (FormatError ''not in array'' [])
      else pckReadContainerEnd this)"

definition pckReadObjBegin :: "PackRead \<Rightarrow> u32 \<Rightarrow> error + PackRead" where
  "pckReadObjBegin this fid =
     (case pckReadTag this fid pckTypeObj False of
        Inl e \<Rightarrow> Inl e
      | Inr (fid1, v, this1) \<Rightarrow> Inr (pckReadPush this1 pckTypeObj))"

definition pckReadObjEnd :: "PackRead \<Rightarrow> error + PackRead" where
  "pckReadObjEnd this =
     (if length (tagStack this) + 1 = 1 \<or> frameType (tagStackTop this) \<noteq> pckTypeObj
      then Inl (FormatError ''not in object'' [])
      else pckReadContainerEnd this)"

text \<open>
  The payload of a Bin or Str field whose tag has been matched with value \<open>v\<close>: the size
  and then that many bytes when \<open>v\<close> is not zero, nothing otherwise.
\<close>

definition pckReadPayload :: "PackRead \<Rightarrow> u64 \<Rightarrow> error + (byte list \<times> PackRead)" where
  "pckReadPayload this v =
     (if v \<noteq> 0 then
        (case pckReadUInt64Internal this of
           Inl e \<Rightarrow> Inl e
         | Inr (sz, this1) \<Rightarrow> pckReadBytes this1 (unat sz) [])
      else Inr ([], this))"

text \<open>\<open>pckReadBin\<close>: \<open>None\<close> is the \<open>NULL\<close> buffer.\<close>

definition pckReadBin :: "PackRead \<Rightarrow> u32 \<Rightarrow> bool \<Rightarrow> error + (byte list option \<times> PackRead)" where
  "pckReadBin this fid defaultNull =
     (case pckReadField this fid defaultNull pckTypeBin of
        Inl e \<Rightarrow> Inl e
      | Inr (None, this1) \<Rightarrow> Inr (None, this1)
      | Inr (Some v, this1) \<Rightarrow>
          (case pckReadPayload this1 v of
             Inl e \<Rightarrow> Inl e
           | Inr (bs, this2) \<Rightarrow> Inr (Some bs, this2)))"

definition pckReadBool :: "PackRead \<Rightarrow> u32 \<Rightarrow> bool \<Rightarrow> bool \<Rightarrow> error + (bool \<times> PackRead)" where
  "pckReadBool this fid defaultNull defaultValue =
     (case pckReadField this fid defaultNull pckTypeBool of
        Inl e \<Rightarrow> Inl e
      | Inr (None, this1) \<Rightarrow> Inr (defaultValue, this1)
      | Inr (Some v, this1) \<Rightarrow> Inr (v \<noteq> 0, this1))"

definition pckReadI32 :: "PackRead \<Rightarrow> u32 \<Rightarrow> bool \<Rightarrow> 32 word \<Rightarrow> error + (32 word \<times> PackRead)" where
  "pckReadI32 this fid defaultNull defaultValue =
     (case pckReadField this fid defaultNull pckTypeI32 of
        Inl e \<Rightarrow> Inl e
      | Inr (None, this1) \<Rightarrow> Inr (defaultValue, this1)
      | Inr (Some v, this1) \<Rightarrow> Inr (cvtInt32FromZigZag (ucast v), this1))"

definition pckReadI64 :: "PackRead \<Rightarrow> u32 \<Rightarrow> bool \<Rightarrow> 64 word \<Rightarrow> error + (64 word \<times> PackRead)" where
  "pckReadI64 this fid defaultNull defaultValue =
     (case pckReadField this fid defaultNull pckTypeI64 of
        Inl e \<Rightarrow> Inl e
      | Inr (None, this1) \<Rightarrow> Inr (defaultValue, this1)
      | Inr (Some v, this1) \<Rightarrow> Inr (cvtInt64FromZigZag v, this1))"

text \<open>\<open>pckReadPtr\<close>: the pointer as its 64-bit pattern, \<open>0\<close> for \<open>NULL\<close>.\<close>

definition pckReadPtr :: "PackRead \<Rightarrow> u32 \<Rightarrow> bool \<Rightarrow> error + (u64 \<times> PackRead)" where
  "pckReadPtr this fid defaultNull =
     (case pckReadField this fid defaultNull pckTypePtr of
        Inl e \<Rightarrow> Inl e
      | Inr (None, this1) \<Rightarrow> Inr (0, this1)
      | Inr (Some v, this1) \<Rightarrow> Inr (v, this1))"

text \<open>
  \<open>pckReadStr\<close>: a \<open>String\<close> is the list of its bytes, \<open>None\<close> the \<open>NULL\<close> string
  (\<open>strDup\<close> of \<open>NULL\<close> is \<open>NULL\<close>).
\<close>

definition pckReadStr ::
  "PackRead \<Rightarrow> u32 \<Rightarrow> bool \<Rightarrow> byte list option \<Rightarrow> error + (byte list option \<times> PackRead)" where
  "pckReadStr this fid defaultNull defaultValue =
     (case pckReadField this fid defaultNull pckTypeStr of
        Inl e \<Rightarrow> Inl e
      | Inr (None, this1) \<Rightarrow> Inr (defaultValue, this1)
      | Inr (Some v, this1) \<Rightarrow>
          (case pckReadPayload this1 v of
             Inl e \<Rightarrow> Inl e
           | Inr (bs, this2) \<Rightarrow> Inr (Some bs, this2)))"

text \<open>\<open>pckReadTime\<close>: \<open>time_t\<close> is a signed 64-bit integer.\<close>

definition pckReadTime :: "PackRead \<Rightarrow> u32 \<Rightarrow> bool \<Rightarrow> 64 word \<Rightarrow> error + (64 word \<times> PackRead)" where
  "pckReadTime this fid defaultNull defaultValue =
     (case pckReadField this fid defaultNull pckTypeTime of
        Inl e \<Rightarrow> Inl e
      | Inr (None, this1) \<Rightarrow> Inr (defaultValue, this1)
      | Inr (Some v, this1) \<Rightarrow> Inr (cvtInt64FromZigZag v, this1))"

definition pckReadU32 :: "PackRead \<Rightarrow> u32 \<Rightarrow> bool \<Rightarrow> u32 \<Rightarrow> error + (u32 \<times> PackRead)" where
  "pckReadU32 this fid defaultNull defaultValue =
     (case pckReadField this fid defaultNull pckTypeU32 of
        Inl e \<Rightarrow> Inl e
      | Inr (None, this1) \<Rightarrow> Inr (defaultValue, this1)
      | Inr (Some v, this1) \<Rightarrow> Inr (ucast v, this1))"

definition pckReadU64 :: "PackRead \<Rightarrow> u32 \<Rightarrow> bool \<Rightarrow> u64 \<Rightarrow> error + (u64 \<times> PackRead)" where
  "pckReadU64 this fid defaultNull defaultValue =
     (case pckReadField this fid defaultNull pckTypeU64 of
        Inl e \<Rightarrow> Inl e
      | Inr (None, this1) \<Rightarrow> Inr (defaultValue, this1)
      | Inr (Some v, this1) \<Rightarrow> Inr (v, this1))"

section \<open>Writer\<close>

definition pckWriteNew :: "nat \<Rightarrow> PackWrite" where
  "pckWriteNew ioBufferSize =
     \<lparr>writeSink = Some [], buffer = [], bufferSize = ioBufferSize,
      wTagStack = [], wTagStackTop = tagStackNew pckTypeObj\<rparr>"

definition pckWriteNewBuf :: "byte list \<Rightarrow> nat \<Rightarrow> PackWrite" where
  "pckWriteNewBuf used cap =
     \<lparr>writeSink = None, buffer = used, bufferSize = cap,
      wTagStack = [], wTagStackTop = tagStackNew pckTypeObj\<rparr>"

definition pckWriteBuffer :: "PackWrite \<Rightarrow> byte list \<Rightarrow> PackWrite" where
  "pckWriteBuffer this bs =
     (case writeSink this of
        None \<Rightarrow>
          (let this1 = (if bufferSize this - length (buffer this) < length bs
                        then this\<lparr>bufferSize := (bufferSize this + length bs) * 2\<rparr> else this)
           in this1\<lparr>buffer := buffer this1 @ bs\<rparr>)
      | Some out \<Rightarrow>
          if bufferSize this - length (buffer this) \<ge> length bs
          then this\<lparr>buffer := buffer this @ bs\<rparr>
          else
            (let this1 = (if length (buffer this) > 0
                          then this\<lparr>writeSink := Some (out @ buffer this), buffer := []\<rparr> else this)
             in if bufferSize this1 - length (buffer this1) \<ge> length bs
                then this1\<lparr>buffer := buffer this1 @ bs\<rparr>
                else this1\<lparr>writeSink := Some (the (writeSink this1) @ bs)\<rparr>))"

text \<open>
  The \<open>while\<close> loop of \<open>pckWriteUInt64Internal\<close>; the local array \<open>buffer\<close> with its fill
  count \<open>size\<close> is the list of the bytes stored so far.
\<close>

function pckWriteUInt64Loop :: "u64 \<Rightarrow> byte list \<Rightarrow> u64 \<times> byte list" where
  "pckWriteUInt64Loop v buf =
     (if v \<ge> 0x80 then pckWriteUInt64Loop (drop_bit 7 v) (buf @ [ucast v OR 0x80])
      else (v, buf))"
  by pat_completeness auto
termination
proof (relation "measure (\<lambda>(v, buf). unat v)")
  show "wf (measure (\<lambda>(v, buf). unat v))" by simp
next
  fix v :: u64 and buf :: "byte list"
  assume "0x80 \<le> v"
  then have "0 < unat v"
    by (simp add: word_le_nat_alt)
  moreover have "unat (drop_bit 7 v) = unat v div 2 ^ 7"
    using unat_drop_bit_eq [of 7 v] drop_bit_eq_div [of 7 "unat v"] by (rule trans)
  ultimately have "unat (drop_bit 7 v) < unat v"
    by simp
  then show "((drop_bit 7 v, buf @ [ucast v OR 0x80]), (v, buf)) \<in> measure (\<lambda>(v, buf). unat v)"
    by simp
qed

declare pckWriteUInt64Loop.simps [simp del]

text \<open>The bytes \<open>pckWriteUInt64Internal\<close> hands to \<open>pckWriteBuffer\<close>.\<close>

definition pckUInt64Bytes :: "u64 \<Rightarrow> byte list" where
  "pckUInt64Bytes v = (case pckWriteUInt64Loop v [] of (v', buf) \<Rightarrow> buf @ [ucast v'])"

definition pckWriteUInt64Internal :: "PackWrite \<Rightarrow> u64 \<Rightarrow> PackWrite" where
  "pckWriteUInt64Internal this v = pckWriteBuffer this (pckUInt64Bytes v)"

text \<open>
  The tag byte and what follows it, computed by the \<open>if\<close> chain of \<open>pckWriteTag\<close> from the
  type, the ID delta \<open>tagId\<close> and the value: the result is \<open>tag\<close>, and \<open>tagId\<close> and \<open>value\<close>
  as the chain leaves them. The \<open>ASSERT(value == 0)\<close> of the last branch gives \<open>None\<close>.
\<close>

definition pckWriteTagBits :: "PackType \<Rightarrow> u32 \<Rightarrow> u64 \<Rightarrow> (u64 \<times> u32 \<times> u64) option" where
  "pckWriteTagBits type tagId0 value0 =
     (let tag0 = (push_bit 4 (of_nat (packTypeOrd type)) :: u64) in
      if valueMultiBit (packTypeData type) then
        (if value0 < 2 then
           (let tag1 = tag0 OR push_bit 2 (value0 AND 0x1);
                value1 = drop_bit 1 value0;
                tag2 = tag1 OR ucast (tagId0 AND 0x1);
                tagId1 = drop_bit 1 tagId0;
                tag3 = (if tagId1 > 0 then tag2 OR 0x2 else tag2)
            in Some (tag3, tagId1, value1))
         else
           (let tag1 = tag0 OR 0x8;
                tag2 = tag1 OR ucast (tagId0 AND 0x3);
                tagId1 = drop_bit 2 tagId0;
                tag3 = (if tagId1 > 0 then tag2 OR 0x4 else tag2)
            in Some (tag3, tagId1, value0)))
      else if valueSingleBit (packTypeData type) then
        (let tag1 = tag0 OR push_bit 3 (value0 AND 0x1);
             value1 = drop_bit 1 value0;
             tag2 = tag1 OR ucast (tagId0 AND 0x3);
             tagId1 = drop_bit 2 tagId0;
             tag3 = (if tagId1 > 0 then tag2 OR 0x4 else tag2)
         in Some (tag3, tagId1, value1))
      else
        (if value0 \<noteq> 0 then None
         else
           (let tag2 = tag0 OR ucast (tagId0 AND 0x7);
                tagId1 = drop_bit 3 tagId0;
                tag3 = (if tagId1 > 0 then tag2 OR 0x8 else tag2)
            in Some (tag3, tagId1, value0))))"

definition pckWriteTag :: "PackWrite \<Rightarrow> PackType \<Rightarrow> u32 \<Rightarrow> u64 \<Rightarrow> error + PackWrite" where
  "pckWriteTag this type fid value =
     (if fid \<noteq> 0 \<and> \<not> fid > idLast (wTagStackTop this) then Inl AssertError
      else
        (let fid1 = (if fid = 0
                     then idLast (wTagStackTop this) + nullTotal (wTagStackTop this) + 1 else fid);
             this1 = this\<lparr>wTagStackTop := (wTagStackTop this)\<lparr>nullTotal := 0\<rparr>\<rparr>
         in case pckWriteTagBits type (fid1 - idLast (wTagStackTop this1) - 1) value of
              None \<Rightarrow> Inl AssertError
            | Some (tag, tagId, value1) \<Rightarrow>
                (let this2 = pckWriteBuffer this1 [ucast tag];
                     this3 = (if tagId > 0 then pckWriteUInt64Internal this2 (ucast tagId) else this2);
                     this4 = (if value1 > 0 then pckWriteUInt64Internal this3 value1 else this3)
                 in Inr (this4\<lparr>wTagStackTop := (wTagStackTop this4)\<lparr>idLast := fid1\<rparr>\<rparr>))))"

definition pckWriteDefaultNull :: "PackWrite \<Rightarrow> bool \<Rightarrow> bool \<Rightarrow> bool \<times> PackWrite" where
  "pckWriteDefaultNull this defaultNull defaultEqual =
     (if defaultNull \<and> defaultEqual
      then (True, this\<lparr>wTagStackTop := (wTagStackTop this)\<lparr>nullTotal := nullTotal (wTagStackTop this) + 1\<rparr>\<rparr>)
      else (False, this))"

definition pckWriteNull :: "PackWrite \<Rightarrow> PackWrite" where
  "pckWriteNull this =
     this\<lparr>wTagStackTop := (wTagStackTop this)\<lparr>nullTotal := nullTotal (wTagStackTop this) + 1\<rparr>\<rparr>"

definition pckWritePush :: "PackWrite \<Rightarrow> PackType \<Rightarrow> PackWrite" where
  "pckWritePush this t =
     this\<lparr>wTagStack := wTagStackTop this # wTagStack this, wTagStackTop := tagStackNew t\<rparr>"

definition pckWriteArrayBegin :: "PackWrite \<Rightarrow> u32 \<Rightarrow> error + PackWrite" where
  "pckWriteArrayBegin this fid =
     (case pckWriteTag this pckTypeArray fid 0 of
        Inl e \<Rightarrow> Inl e
      | Inr this1 \<Rightarrow> Inr (pckWritePush this1 pckTypeArray))"

text \<open>
  The end of a container, shared by \<open>pckWriteArrayEnd\<close> (\<open>t\<close> is \<open>pckTypeArray\<close>) and
  \<open>pckWriteObjEnd\<close> (\<open>t\<close> is \<open>pckTypeObj\<close>).
\<close>

definition pckWriteContainerEnd :: "PackWrite \<Rightarrow> PackType \<Rightarrow> error + PackWrite" where
  "pckWriteContainerEnd this t =
     (if \<not> length (wTagStack this) + 1 \<noteq> 1 then Inl AssertError
      else if \<not> frameType (wTagStackTop this) = t then Inl AssertError
      else
        (let this1 = pckWriteUInt64Internal this 0 in
         case wTagStack this1 of
           [] \<Rightarrow> Inl AssertError
         | f # fs \<Rightarrow> Inr (this1\<lparr>wTagStack := fs, wTagStackTop := f\<rparr>)))"

definition pckWriteArrayEnd :: "PackWrite \<Rightarrow> error + PackWrite" where
  "pckWriteArrayEnd this = pckWriteContainerEnd this pckTypeArray"

definition pckWriteObjBegin :: "PackWrite \<Rightarrow> u32 \<Rightarrow> error + PackWrite" where
  "pckWriteObjBegin this fid =
     (case pckWriteTag this pckTypeObj fid 0 of
        Inl e \<Rightarrow> Inl e
      | Inr this1 \<Rightarrow> Inr (pckWritePush this1 pckTypeObj))"

definition pckWriteObjEnd :: "PackWrite \<Rightarrow> error + PackWrite" where
  "pckWriteObjEnd this = pckWriteContainerEnd this pckTypeObj"

text \<open>
  The tag of a Bin or Str field and its payload: the value of the tag is whether the
  size is greater than zero; then the size and the bytes follow.
\<close>

definition pckWriteSized :: "PackWrite \<Rightarrow> PackType \<Rightarrow> u32 \<Rightarrow> byte list \<Rightarrow> error + PackWrite" where
  "pckWriteSized this type fid bs =
     (case pckWriteTag this type fid (if length bs > 0 then 1 else 0) of
        Inl e \<Rightarrow> Inl e
      | Inr this1 \<Rightarrow>
          if length bs > 0
          then Inr (pckWriteBuffer (pckWriteUInt64Internal this1 (of_nat (length bs))) bs)
          else Inr this1)"

definition pckWriteBin :: "PackWrite \<Rightarrow> byte list option \<Rightarrow> u32 \<Rightarrow> bool \<Rightarrow> error + PackWrite" where
  "pckWriteBin this value fid defaultNull =
     (case pckWriteDefaultNull this defaultNull (value = None) of
        (True, this1) \<Rightarrow> Inr this1
      | (False, this1) \<Rightarrow>
          (case value of
             None \<Rightarrow> Inl AssertError
           | Some bs \<Rightarrow> pckWriteSized this1 pckTypeBin fid bs))"

definition pckWriteBool :: "PackWrite \<Rightarrow> bool \<Rightarrow> u32 \<Rightarrow> bool \<Rightarrow> bool \<Rightarrow> error + PackWrite" where
  "pckWriteBool this value fid defaultNull defaultValue =
     (case pckWriteDefaultNull this defaultNull (value = defaultValue) of
        (True, this1) \<Rightarrow> Inr this1
      | (False, this1) \<Rightarrow> pckWriteTag this1 pckTypeBool fid (if value then 1 else 0))"

definition pckWriteI32 :: "PackWrite \<Rightarrow> 32 word \<Rightarrow> u32 \<Rightarrow> bool \<Rightarrow> 32 word \<Rightarrow> error + PackWrite" where
  "pckWriteI32 this value fid defaultNull defaultValue =
     (case pckWriteDefaultNull this defaultNull (value = defaultValue) of
        (True, this1) \<Rightarrow> Inr this1
      | (False, this1) \<Rightarrow> pckWriteTag this1 pckTypeI32 fid (ucast (cvtInt32ToZigZag value)))"

definition pckWriteI64 :: "PackWrite \<Rightarrow> 64 word \<Rightarrow> u32 \<Rightarrow> bool \<Rightarrow> 64 word \<Rightarrow> error + PackWrite" where
  "pckWriteI64 this value fid defaultNull defaultValue =
     (case pckWriteDefaultNull this defaultNull (value = defaultValue) of
        (True, this1) \<Rightarrow> Inr this1
      | (False, this1) \<Rightarrow> pckWriteTag this1 pckTypeI64 fid (cvtInt64ToZigZag value))"

definition pckWritePtr :: "PackWrite \<Rightarrow> u64 \<Rightarrow> u32 \<Rightarrow> bool \<Rightarrow> error + PackWrite" where
  "pckWritePtr this value fid defaultNull =
     (case pckWriteDefaultNull this defaultNull (value = 0) of
        (True, this1) \<Rightarrow> Inr this1
      | (False, this1) \<Rightarrow> pckWriteTag this1 pckTypePtr fid value)"

text \<open>
  Modelled from the spec: \<open>strEq\<close> (common/type/string.c) is not part of the sources at
  hand. By the elision rule of the spec (4.4.2) null equals null and strings are compared
  structurally, which is the equality of \<open>byte list option\<close>.
\<close>

definition strEq :: "byte list option \<Rightarrow> byte list option \<Rightarrow> bool" where
  "strEq a b = (a = b)"

definition pckWriteStr ::
  "PackWrite \<Rightarrow> byte list option \<Rightarrow> u32 \<Rightarrow> bool \<Rightarrow> byte list option \<Rightarrow> error + PackWrite" where
  "pckWriteStr this value fid defaultNull defaultValue =
     (case pckWriteDefaultNull this defaultNull (strEq value defaultValue) of
        (True, this1) \<Rightarrow> Inr this1
      | (False, this1) \<Rightarrow>
          (case value of
             None \<Rightarrow> Inl AssertError
           | Some bs \<Rightarrow> pckWriteSized this1 pckTypeStr fid bs))"

definition pckWriteTime :: "PackWrite \<Rightarrow> 64 word \<Rightarrow> u32 \<Rightarrow> bool \<Rightarrow> 64 word \<Rightarrow> error + PackWrite" where
  "pckWriteTime this value fid defaultNull defaultValue =
     (case pckWriteDefaultNull this defaultNull (value = defaultValue) of
        (True, this1) \<Rightarrow> Inr this1
      | (False, this1) \<Rightarrow> pckWriteTag this1 pckTypeTime fid (cvtInt64ToZigZag value))"

definition pckWriteU32 :: "PackWrite \<Rightarrow> u32 \<Rightarrow> u32 \<Rightarrow> bool \<Rightarrow> u32 \<Rightarrow> error + PackWrite" where
  "pckWriteU32 this value fid defaultNull defaultValue =
     (case pckWriteDefaultNull this defaultNull (value = defaultValue) of
        (True, this1) \<Rightarrow> Inr this1
      | (False, this1) \<Rightarrow> pckWriteTag this1 pckTypeU32 fid (ucast value))"

definition pckWriteU64 :: "PackWrite \<Rightarrow> u64 \<Rightarrow> u32 \<Rightarrow> bool \<Rightarrow> u64 \<Rightarrow> error + PackWrite" where
  "pckWriteU64 this value fid defaultNull defaultValue =
     (case pckWriteDefaultNull this defaultNull (value = defaultValue) of
        (True, this1) \<Rightarrow> Inr this1
      | (False, this1) \<Rightarrow> pckWriteTag this1 pckTypeU64 fid value)"

text \<open>
  \<open>pckWriteEnd\<close>: with a sink the internal buffer is written to it; without one the
  buffer is resized to what it holds.
\<close>

definition pckWriteEnd :: "PackWrite \<Rightarrow> error + PackWrite" where
  "pckWriteEnd this =
     (if \<not> length (wTagStack this) + 1 = 1 then Inl AssertError
      else
        (let this1 = pckWriteUInt64Internal this 0 in
         case writeSink this1 of
           Some out \<Rightarrow>
             Inr (if length (buffer this1) > 0 then this1\<lparr>writeSink := Some (out @ buffer this1)\<rparr>
                  else this1)
         | None \<Rightarrow> Inr (this1\<lparr>bufferSize := length (buffer this1)\<rparr>)))"

text \<open>The bytes of the pack after \<open>pckWriteEnd\<close>: what the sink received, or the buffer.\<close>

definition pckWriteResult :: "PackWrite \<Rightarrow> byte list" where
  "pckWriteResult this = (case writeSink this of Some out \<Rightarrow> out | None \<Rightarrow> buffer this)"

section \<open>Input and output as byte streams\<close>

text \<open>
  What a writer has produced so far (the bytes the sink received followed by those still
  in the buffer), what a reader has not consumed yet (the rest of its buffer followed by
  what the source still holds), the invariant of the reader's buffer (with a source each
  read fetches exactly the bytes required, so nothing remains in the buffer), and the
  reader without its buffer.
\<close>


definition pckWriteOutput :: "PackWrite \<Rightarrow> byte list" where
  "pckWriteOutput this = (case writeSink this of None \<Rightarrow> buffer this | Some out \<Rightarrow> out @ buffer this)"

definition pckReadStream :: "PackRead \<Rightarrow> byte list" where
  "pckReadStream this =
     drop (bufferPos this) (take (bufferMax this) (bufferPtr this)) @
     (case read this of None \<Rightarrow> [] | Some src \<Rightarrow> src)"

definition pckReadInv :: "PackRead \<Rightarrow> bool" where
  "pckReadInv this =
     (bufferPos this \<le> bufferMax this \<and> bufferMax this \<le> length (bufferPtr this) \<and>
      (case read this of None \<Rightarrow> True
       | Some src \<Rightarrow> bufferPos this = bufferMax this \<and> 0 < bufferSizeAlloc this))"

definition pckReadCtl :: "PackRead \<Rightarrow> PackRead" where
  "pckReadCtl this = this\<lparr>read := None, bufferPtr := [], bufferPos := 0, bufferMax := 0\<rparr>"

lemma pckWriteBuffer_output:
  "pckWriteOutput (pckWriteBuffer w bs) = pckWriteOutput w @ bs"
  "wTagStack (pckWriteBuffer w bs) = wTagStack w"
  "wTagStackTop (pckWriteBuffer w bs) = wTagStackTop w"
  by (auto simp: pckWriteBuffer_def pckWriteOutput_def Let_def split: option.splits)

lemma pckReadBuffer_empty:
  "pckReadInv r \<Longrightarrow> pckReadStream r = [] \<Longrightarrow> 0 < n \<Longrightarrow>
   pckReadBuffer r n = Inl (FormatError ''unexpected EOF'' [])"
  by (auto simp: pckReadBuffer_def pckReadInv_def pckReadStream_def ioReadSmall_def Let_def
      split: option.splits)

lemma pckReadBuffer_byte:
  assumes "pckReadInv r" and "pckReadStream r = b # rest"
  shows "\<exists>n r1. pckReadBuffer r 1 = Inr (n, r1) \<and> bufferPtr r1 ! bufferPos r1 = b \<and>
           pckReadStream (r1\<lparr>bufferPos := bufferPos r1 + 1\<rparr>) = rest \<and>
           pckReadInv (r1\<lparr>bufferPos := bufferPos r1 + 1\<rparr>) \<and>
           pckReadCtl r1 = pckReadCtl r"
proof (cases "read r")
  case None
  with assms have s: "drop (bufferPos r) (take (bufferMax r) (bufferPtr r)) = b # rest"
    and le: "bufferPos r \<le> bufferMax r" "bufferMax r \<le> length (bufferPtr r)"
    by (simp_all add: pckReadStream_def pckReadInv_def)
  from s have lt: "bufferPos r < bufferMax r"
    by (metis drop_all le(2) length_take list.distinct(1) min.absorb2 not_le_imp_less)
  have "take (bufferMax r) (bufferPtr r) ! bufferPos r = b"
    using s lt le by (metis Cons_nth_drop_Suc length_take list.inject min.absorb2)
  then have b: "bufferPtr r ! bufferPos r = b" using lt by simp
  have "drop (Suc (bufferPos r)) (take (bufferMax r) (bufferPtr r)) = rest"
    using s by (metis drop_Suc list.sel(3) tl_drop)
  with None lt le b show ?thesis
    by (simp add: pckReadBuffer_def pckReadStream_def pckReadInv_def pckReadCtl_def)
next
  case (Some src)
  with assms have s: "src = b # rest" and a: "0 < bufferSizeAlloc r" and p: "bufferPos r = bufferMax r"
    "bufferMax r \<le> length (bufferPtr r)"
    by (simp_all add: pckReadStream_def pckReadInv_def)
  from a consider "bufferSizeAlloc r = 1" | "1 < bufferSizeAlloc r"
    by linarith
  then show ?thesis
  proof cases
    case 1
    with Some s p show ?thesis
      by (simp add: pckReadBuffer_def pckReadStream_def pckReadInv_def pckReadCtl_def
          ioReadSmall_def Let_def)
  next
    case 2
    with Some s p show ?thesis
      by (simp add: pckReadBuffer_def pckReadStream_def pckReadInv_def pckReadCtl_def
          ioReadSmall_def Let_def)
  qed
qed

lemma drop_bit7_less: "(0x80 :: u64) \<le> v \<Longrightarrow> unat (drop_bit 7 v) < unat v"
proof -
  assume "0x80 \<le> v"
  then have "0 < unat v"
    by (simp add: word_le_nat_alt)
  moreover have "unat (drop_bit 7 v) = unat v div 2 ^ 7"
    using unat_drop_bit_eq [of 7 v] drop_bit_eq_div [of 7 "unat v"] by (rule trans)
  ultimately show ?thesis by simp
qed

lemma pckWriteUInt64Loop_acc:
  "pckWriteUInt64Loop v buf = (fst (pckWriteUInt64Loop v []), buf @ snd (pckWriteUInt64Loop v []))"
proof (induction v arbitrary: buf rule: measure_induct_rule [where f = unat])
  case (less v)
  show ?case
  proof (cases "v \<ge> 0x80")
    case True
    have a: "pckWriteUInt64Loop (drop_bit 7 v) b =
          (fst (pckWriteUInt64Loop (drop_bit 7 v) []), b @ snd (pckWriteUInt64Loop (drop_bit 7 v) []))" for b
      using less [OF drop_bit7_less [OF True]] .
    show ?thesis
      using True a [of "buf @ [ucast v OR 0x80]"] a [of "[ucast v OR 0x80]"]
      by (simp add: pckWriteUInt64Loop.simps [of v])
  next
    case False
    then show ?thesis by (simp add: pckWriteUInt64Loop.simps [of v])
  qed
qed

lemma pckUInt64Bytes_rec:
  "pckUInt64Bytes v =
     (if v \<ge> 0x80 then (ucast v OR 0x80) # pckUInt64Bytes (drop_bit 7 v) else [ucast v])"
proof (cases "v \<ge> 0x80")
  case True
  have "pckWriteUInt64Loop v [] = pckWriteUInt64Loop (drop_bit 7 v) [ucast v OR 0x80]"
    using True by (simp add: pckWriteUInt64Loop.simps [of v])
  also have "\<dots> = (fst (pckWriteUInt64Loop (drop_bit 7 v) []),
                   [ucast v OR 0x80] @ snd (pckWriteUInt64Loop (drop_bit 7 v) []))"
    by (rule pckWriteUInt64Loop_acc)
  finally show ?thesis
    using True by (simp add: pckUInt64Bytes_def split: prod.splits)
next
  case False
  then show ?thesis
    by (simp add: pckUInt64Bytes_def pckWriteUInt64Loop.simps [of v])
qed

lemma varint_low7: "(ucast (v :: u64) OR 0x80 :: byte) AND 0x7f = ucast v AND 0x7f"
  by (simp add: word_ao_dist)

lemma varint_cont: "(0x80 :: byte) \<le> ucast (v :: u64) OR 0x80"
  by (simp add: le_word_or1 word_bw_comms)

lemma varint_last: "\<not> (0x80 :: u64) \<le> v \<Longrightarrow> (ucast v :: byte) < 0x80"
proof -
  assume "\<not> (0x80 :: u64) \<le> v"
  then have "unat v < 128" by (simp add: word_le_nat_alt)
  moreover have "unat (ucast v :: byte) \<le> unat v"
    by (simp add: unsigned_ucast_eq)
  ultimately show ?thesis
    by (simp add: word_less_nat_alt)
qed

lemma byte_7f: "(0x7f :: byte) = mask 7"
  by (simp add: mask_eq_exp_minus_1)

lemma varint_take7: "(ucast ((ucast (v :: u64) :: byte) AND 0x7f) :: u64) = take_bit 7 v"
  unfolding byte_7f
  by (rule bit_word_eqI) (auto simp: bit_simps)

lemma varint_last_val: "\<not> (0x80 :: u64) \<le> v \<Longrightarrow> (ucast ((ucast v :: byte) AND 0x7f) :: u64) = v"
proof -
  assume "\<not> (0x80 :: u64) \<le> v"
  then have "v < 2 ^ 7" by (simp add: not_le)
  then have "v AND mask 7 = v"
    by (rule less_mask_eq)
  then show ?thesis
    by (simp add: varint_take7 take_bit_eq_mask)
qed

lemma varint_join:
  "push_bit (7 * i) (ucast ((ucast v :: byte) AND 0x7f) :: u64) OR push_bit (7 * (i + 1)) (drop_bit 7 v)
     = push_bit (7 * i) (v :: u64)"
proof -
  have "take_bit 7 v OR push_bit 7 (drop_bit 7 v) = v"
  proof (rule bit_word_eqI)
    fix n assume "n < LENGTH(64)"
    then show "bit (take_bit 7 v OR push_bit 7 (drop_bit 7 v)) n = bit v n"
      by (cases "n < 7") (auto simp: bit_simps)
  qed
  then have "push_bit (7 * i) (take_bit 7 v OR push_bit 7 (drop_bit 7 v)) = push_bit (7 * i) v"
    by simp
  then show ?thesis
    by (simp add: varint_take7 push_bit_or push_bit_push_bit add.commute del: push_bit_take_bit)
qed

lemma pckReadCtl_bufferPos [simp]: "pckReadCtl (r\<lparr>bufferPos := p\<rparr>) = pckReadCtl r"
  by (simp add: pckReadCtl_def)

lemma pckReadUInt64Loop_decode:
  assumes "pckReadInv r" and "pckReadStream r = pckUInt64Bytes v @ rest"
    and "unat v < 2 ^ (64 - 7 * i)" and "i \<le> 9"
  shows "\<exists>b r1. pckReadUInt64Loop r i acc b0 = Inr (acc OR push_bit (7 * i) v, b, r1) \<and> b < 0x80 \<and>
           pckReadStream (r1\<lparr>bufferPos := bufferPos r1 + 1\<rparr>) = rest \<and>
           pckReadInv (r1\<lparr>bufferPos := bufferPos r1 + 1\<rparr>) \<and>
           pckReadCtl r1 = pckReadCtl r"
  using assms
proof (induction v arbitrary: r i acc b0 rule: measure_induct_rule [where f = unat])
  case (less v)
  have i10: "i < PACK_UINT64_SIZE_MAX" using less.prems(4) by (simp add: PACK_UINT64_SIZE_MAX_def)
  show ?case
  proof (cases "v \<ge> 0x80")
    case False
    let ?b = "ucast v :: byte"
    from False less.prems(2) have s: "pckReadStream r = ?b # rest"
      by (subst (asm) pckUInt64Bytes_rec) simp
    from pckReadBuffer_byte [OF less.prems(1) s] obtain n r1 where
      rb: "pckReadBuffer r 1 = Inr (n, r1)" "bufferPtr r1 ! bufferPos r1 = ?b"
        "pckReadStream (r1\<lparr>bufferPos := bufferPos r1 + 1\<rparr>) = rest"
        "pckReadInv (r1\<lparr>bufferPos := bufferPos r1 + 1\<rparr>)" "pckReadCtl r1 = pckReadCtl r"
      by blast
    have "pckReadUInt64Loop r i acc b0 = Inr (acc OR push_bit (7 * i) v, ?b, r1)"
      using i10 rb(1,2) varint_last [OF False] varint_last_val [OF False]
      by (simp add: pckReadUInt64Loop.simps [of r] Let_def)
    with rb varint_last [OF False] show ?thesis by blast
  next
    case True
    let ?b = "ucast v OR 0x80 :: byte"
    let ?v' = "drop_bit 7 v"
    from True less.prems(2) have s: "pckReadStream r = ?b # (pckUInt64Bytes ?v' @ rest)"
      by (subst (asm) pckUInt64Bytes_rec) simp
    from pckReadBuffer_byte [OF less.prems(1) s] obtain n r1 where
      rb: "pckReadBuffer r 1 = Inr (n, r1)" "bufferPtr r1 ! bufferPos r1 = ?b"
        "pckReadStream (r1\<lparr>bufferPos := bufferPos r1 + 1\<rparr>) = pckUInt64Bytes ?v' @ rest"
        "pckReadInv (r1\<lparr>bufferPos := bufferPos r1 + 1\<rparr>)" "pckReadCtl r1 = pckReadCtl r"
      by blast
    from True have v128: "128 \<le> unat v" by (simp add: word_le_nat_alt)
    have i8: "i \<le> 8"
    proof (rule ccontr)
      assume "\<not> i \<le> 8"
      with less.prems(4) have "i = 9" by simp
      with less.prems(3) v128 show False by simp
    qed
    have "64 - 7 * i = (64 - 7 * (i + 1)) + 7"
      using i8 by simp
    then have pw: "(2::nat) ^ (64 - 7 * i) = 2 ^ (64 - 7 * (i + 1)) * 2 ^ 7"
      by (simp only: power_add)
    have dv: "unat ?v' = unat v div 2 ^ 7"
      using unat_drop_bit_eq [of 7 v] drop_bit_eq_div [of 7 "unat v"] by (rule trans)
    have bound: "unat ?v' < 2 ^ (64 - 7 * (i + 1))"
      unfolding dv using less.prems(3) unfolding pw
      by (simp add: less_mult_imp_div_less)
    let ?acc' = "acc OR push_bit (7 * i) (ucast (?b AND 0x7f))"
    from less.IH [OF drop_bit7_less [OF True] rb(4) rb(3) bound, of ?acc' ?b] i8
    obtain b r2 where
      rec: "pckReadUInt64Loop (r1\<lparr>bufferPos := bufferPos r1 + 1\<rparr>) (i + 1) ?acc' ?b =
              Inr (?acc' OR push_bit (7 * (i + 1)) ?v', b, r2)" "b < 0x80"
        "pckReadStream (r2\<lparr>bufferPos := bufferPos r2 + 1\<rparr>) = rest"
        "pckReadInv (r2\<lparr>bufferPos := bufferPos r2 + 1\<rparr>)"
        "pckReadCtl r2 = pckReadCtl r1"
      by auto
    have nb: "\<not> ?b < 0x80" using varint_cont [of v] by (simp add: not_less)
    have val: "?acc' OR push_bit (7 * (i + 1)) ?v' = acc OR push_bit (7 * i) v"
      using varint_join [of i v] by (simp add: varint_low7 or.assoc)
    have "pckReadUInt64Loop r i acc b0 = Inr (acc OR push_bit (7 * i) v, b, r2)"
      using i10 rb(1,2) nb rec(1) val
      by (simp add: pckReadUInt64Loop.simps [of r] Let_def)
    with rec rb(5) show ?thesis by auto
  qed
qed

lemma pckReadUInt64Internal_decode:
  assumes "pckReadInv r" and "pckReadStream r = pckUInt64Bytes v @ rest"
  shows "\<exists>r1. pckReadUInt64Internal r = Inr (v, r1) \<and> pckReadStream r1 = rest \<and>
           pckReadInv r1 \<and> pckReadCtl r1 = pckReadCtl r"
proof -
  have "unat v < 2 ^ (64 - 7 * 0)" using unsigned_less [of v] by simp
  from pckReadUInt64Loop_decode [OF assms this, of 0 0] obtain b r1 where
    "pckReadUInt64Loop r 0 0 0 = Inr (v, b, r1)" "b < 0x80"
    "pckReadStream (r1\<lparr>bufferPos := bufferPos r1 + 1\<rparr>) = rest"
    "pckReadInv (r1\<lparr>bufferPos := bufferPos r1 + 1\<rparr>)"
    "pckReadCtl r1 = pckReadCtl r"
    by auto
  then show ?thesis
    by (simp add: pckReadUInt64Internal_def not_le [symmetric])
qed

lemma pckUInt64Bytes_nonempty: "pckUInt64Bytes v \<noteq> []"
  by (subst pckUInt64Bytes_rec) simp

lemma pckUInt64Bytes_length_le:
  "unat v < 2 ^ (7 * k) \<Longrightarrow> 0 < k \<Longrightarrow> length (pckUInt64Bytes v) \<le> k"
proof (induction v arbitrary: k rule: measure_induct_rule [where f = unat])
  case (less v)
  show ?case
  proof (cases "v \<ge> 0x80")
    case False
    with less.prems show ?thesis by (subst pckUInt64Bytes_rec) simp
  next
    case True
    then have v128: "128 \<le> unat v" by (simp add: word_le_nat_alt)
    have k2: "2 \<le> k"
    proof (rule ccontr)
      assume "\<not> 2 \<le> k"
      with less.prems(2) have "k = 1" by simp
      with less.prems(1) v128 show False by simp
    qed
    then have "7 * k = 7 * (k - 1) + 7" by simp
    then have pw: "(2::nat) ^ (7 * k) = 2 ^ (7 * (k - 1)) * 2 ^ 7"
      by (simp only: power_add)
    have dv: "unat (drop_bit 7 v) = unat v div 2 ^ 7"
      using unat_drop_bit_eq [of 7 v] drop_bit_eq_div [of 7 "unat v"] by (rule trans)
    have "unat (drop_bit 7 v) < 2 ^ (7 * (k - 1))"
      unfolding dv using less.prems(1) unfolding pw by (simp add: less_mult_imp_div_less)
    from less.IH [OF drop_bit7_less [OF True] this] k2
    have "length (pckUInt64Bytes (drop_bit 7 v)) \<le> k - 1" by simp
    with True k2 show ?thesis by (subst pckUInt64Bytes_rec) simp
  qed
qed

lemma pckUInt64Bytes_length: "length (pckUInt64Bytes v) \<le> 10"
proof -
  have "unat v < 2 ^ 64" using unsigned_less [of v] by simp
  also have "\<dots> \<le> (2::nat) ^ (7 * 10)" by simp
  finally show ?thesis by (rule pckUInt64Bytes_length_le) simp
qed

lemma pckUInt64Bytes_nth:
  "i < length (pckUInt64Bytes v) \<Longrightarrow>
     pckUInt64Bytes v ! i AND 0x7f = ucast (drop_bit (7 * i) v) AND 0x7f \<and>
     (0x80 \<le> pckUInt64Bytes v ! i) = (i + 1 < length (pckUInt64Bytes v))"
proof (induction v arbitrary: i rule: measure_induct_rule [where f = unat])
  case (less v)
  show ?case
  proof (cases "v \<ge> 0x80")
    case False
    have bs: "pckUInt64Bytes v = [ucast v]"
      using False by (subst pckUInt64Bytes_rec) simp
    with less.prems have "i = 0" by simp
    with bs varint_last [OF False] show ?thesis by (simp add: not_le)
  next
    case True
    have bs: "pckUInt64Bytes v = (ucast v OR 0x80) # pckUInt64Bytes (drop_bit 7 v)"
      using True by (subst pckUInt64Bytes_rec) simp
    show ?thesis
    proof (cases i)
      case 0
      with bs varint_cont [of v] pckUInt64Bytes_nonempty [of "drop_bit 7 v"] show ?thesis
        by (simp add: varint_low7)
    next
      case (Suc j)
      with less.prems bs have "j < length (pckUInt64Bytes (drop_bit 7 v))" by simp
      from less.IH [OF drop_bit7_less [OF True] this] Suc bs show ?thesis
        by (simp add: drop_bit_drop_bit add.commute)
    qed
  qed
qed

lemma pckReadUInt64Loop_unterminated:
  assumes "pckReadInv r" and "pckReadStream r = bs @ rest" and "\<forall>b \<in> set bs. 0x80 \<le> b"
    and "i + length bs = PACK_UINT64_SIZE_MAX" and "bs \<noteq> []"
  shows "\<exists>res b r1. pckReadUInt64Loop r i acc b0 = Inr (res, b, r1) \<and> 0x80 \<le> b"
  using assms
proof (induction bs arbitrary: r i acc b0)
  case Nil
  then show ?case by simp
next
  case (Cons b bs)
  from Cons.prems(2) have s: "pckReadStream r = b # (bs @ rest)" by simp
  from pckReadBuffer_byte [OF Cons.prems(1) s] obtain n r1 where
    rb: "pckReadBuffer r 1 = Inr (n, r1)" "bufferPtr r1 ! bufferPos r1 = b"
      "pckReadStream (r1\<lparr>bufferPos := bufferPos r1 + 1\<rparr>) = bs @ rest"
      "pckReadInv (r1\<lparr>bufferPos := bufferPos r1 + 1\<rparr>)"
    by blast
  from Cons.prems(3) have b: "\<not> b < 0x80" by (simp add: not_less)
  from Cons.prems(4) have i: "i < PACK_UINT64_SIZE_MAX" by simp
  show ?case
  proof (cases "bs = []")
    case True
    with Cons.prems(4) have "\<not> i + 1 < PACK_UINT64_SIZE_MAX" by simp
    then show ?thesis
      using i rb(1,2) b Cons.prems(3)
      by (simp add: pckReadUInt64Loop.simps [of r] pckReadUInt64Loop.simps [of _ "Suc i"] Let_def)
  next
    case False
    from Cons.prems(3,4) have "\<forall>b \<in> set bs. 0x80 \<le> b" "(i + 1) + length bs = PACK_UINT64_SIZE_MAX"
      by simp_all
    from Cons.IH [OF rb(4) rb(3) this False]
    show ?thesis
      using i rb(1,2) b by (simp add: pckReadUInt64Loop.simps [of r] Let_def)
  qed
qed

lemma pckReadUInt64Loop_eof:
  assumes "pckReadInv r" and "pckReadStream r = bs" and "\<forall>b \<in> set bs. 0x80 \<le> b"
    and "i + length bs < PACK_UINT64_SIZE_MAX"
  shows "pckReadUInt64Loop r i acc b0 = Inl (FormatError ''unexpected EOF'' [])"
  using assms
proof (induction bs arbitrary: r i acc b0)
  case Nil
  then show ?case
    by (simp add: pckReadUInt64Loop.simps [of r] pckReadBuffer_empty)
next
  case (Cons b bs)
  from pckReadBuffer_byte [OF Cons.prems(1) Cons.prems(2)] obtain n r1 where
    rb: "pckReadBuffer r 1 = Inr (n, r1)" "bufferPtr r1 ! bufferPos r1 = b"
      "pckReadStream (r1\<lparr>bufferPos := bufferPos r1 + 1\<rparr>) = bs"
      "pckReadInv (r1\<lparr>bufferPos := bufferPos r1 + 1\<rparr>)"
    by blast
  from Cons.prems(3) have b: "\<not> b < 0x80" by (simp add: not_less)
  from Cons.prems(4) have i: "i < PACK_UINT64_SIZE_MAX" by simp
  from Cons.prems(3,4) have "\<forall>b \<in> set bs. 0x80 \<le> b" "(i + 1) + length bs < PACK_UINT64_SIZE_MAX"
    by simp_all
  from Cons.IH [OF rb(4) rb(3) this]
  show ?case
    using i rb(1,2) b by (simp add: pckReadUInt64Loop.simps [of r] Let_def)
qed

lemma pckReadNewBuf_inv [simp]:
  "pckReadInv (pckReadNewBuf bs)" "pckReadStream (pckReadNewBuf bs) = bs"
  by (simp_all add: pckReadInv_def pckReadStream_def pckReadNewBuf_def)

lemma pckReadNew_inv [simp]:
  "0 < n \<Longrightarrow> pckReadInv (pckReadNew bs n)" "pckReadStream (pckReadNew bs n) = bs"
  by (simp_all add: pckReadInv_def pckReadStream_def pckReadNew_def)

text \<open>
  Claim C2. For every unsigned 64-bit integer \<open>v\<close>, \<open>pckWriteUInt64Internal\<close> appends to the
  output the bytes \<open>pckUInt64Bytes v\<close>: at most ten and at least one; byte \<open>i\<close> carries the
  seven bits of \<open>v\<close> from position \<open>7 * i\<close> (little-endian base 128) and has its high bit
  set exactly when it is not the last. \<open>pckReadUInt64Internal\<close> on a reader whose input starts
  with these bytes returns \<open>v\<close> and leaves the reader just behind them.
\<close>

theorem pckUInt64_roundtrip:
  "pckWriteOutput (pckWriteUInt64Internal w v) = pckWriteOutput w @ pckUInt64Bytes v \<and>
   length (pckUInt64Bytes v) \<le> PACK_UINT64_SIZE_MAX \<and> pckUInt64Bytes v \<noteq> [] \<and>
   (\<forall>i < length (pckUInt64Bytes v).
      pckUInt64Bytes v ! i AND 0x7f = ucast (drop_bit (7 * i) v) AND 0x7f \<and>
      (0x80 \<le> pckUInt64Bytes v ! i) = (i + 1 < length (pckUInt64Bytes v))) \<and>
   (pckReadInv r \<and> pckReadStream r = pckUInt64Bytes v @ rest \<longrightarrow>
      (\<exists>r1. pckReadUInt64Internal r = Inr (v, r1) \<and> pckReadStream r1 = rest \<and>
            pckReadInv r1 \<and> pckReadCtl r1 = pckReadCtl r))"
  using pckUInt64Bytes_length [of v] pckUInt64Bytes_nonempty [of v]
    pckUInt64Bytes_nth [of _ v] pckReadUInt64Internal_decode [of r v rest]
  by (simp add: pckWriteUInt64Internal_def pckWriteBuffer_output PACK_UINT64_SIZE_MAX_def)

lemma pckUInt64Bytes_128: "pckUInt64Bytes 0x80 = [0x80, 0x01]"
  by (simp add: pckUInt64Bytes_rec [of "0x80"] pckUInt64Bytes_rec [of 1] drop_bit_eq_div
      word_le_nat_alt)

theorem pckUInt64_roundtrip_witness:
  "pckReadInv (pckReadNewBuf [0x80, 0x01]) \<and>
   pckReadStream (pckReadNewBuf [0x80, 0x01]) = pckUInt64Bytes 0x80 @ [] \<and>
   (\<exists>r1. pckReadUInt64Internal (pckReadNewBuf [0x80, 0x01]) = Inr (0x80, r1) \<and> pckReadStream r1 = []) \<and>
   (0 :: nat) < length (pckUInt64Bytes 0x80) \<and> 0x80 \<le> pckUInt64Bytes 0x80 ! 0"
  using pckUInt64_roundtrip [of "pckWriteNewBuf [] 0" "0x80" "pckReadNewBuf [0x80, 0x01]" "[]"]
  by (auto simp: pckUInt64Bytes_128)

text \<open>
  Claim C8. \<open>pckReadUInt64Internal\<close> fails with a format error (its message is
  "unterminated base-128 integer") when the ten bytes it reads all have the high bit
  set, and with the format error "unexpected EOF" when the input ends after fewer than ten
  bytes that all have the high bit set.
\<close>

theorem pckReadUInt64Internal_errors:
  "(pckReadInv r \<and> pckReadStream r = bs @ rest \<and> length bs = PACK_UINT64_SIZE_MAX \<and>
      (\<forall>b \<in> set bs. 0x80 \<le> b) \<longrightarrow>
        pckReadUInt64Internal r = Inl (FormatError ''unterminated base-128 integer'' [])) \<and>
   (pckReadInv r \<and> pckReadStream r = bs \<and> length bs < PACK_UINT64_SIZE_MAX \<and>
      (\<forall>b \<in> set bs. 0x80 \<le> b) \<longrightarrow>
        pckReadUInt64Internal r = Inl (FormatError ''unexpected EOF'' []))"
proof (intro conjI impI)
  assume a: "pckReadInv r \<and> pckReadStream r = bs @ rest \<and> length bs = PACK_UINT64_SIZE_MAX \<and>
      (\<forall>b \<in> set bs. 0x80 \<le> b)"
  then have "bs \<noteq> []" by (auto simp: PACK_UINT64_SIZE_MAX_def)
  with a pckReadUInt64Loop_unterminated [of r bs rest 0 0 0]
  show "pckReadUInt64Internal r = Inl (FormatError ''unterminated base-128 integer'' [])"
    by (auto simp: pckReadUInt64Internal_def)
next
  assume a: "pckReadInv r \<and> pckReadStream r = bs \<and> length bs < PACK_UINT64_SIZE_MAX \<and>
      (\<forall>b \<in> set bs. 0x80 \<le> b)"
  with pckReadUInt64Loop_eof [of r bs 0 0 0]
  show "pckReadUInt64Internal r = Inl (FormatError ''unexpected EOF'' [])"
    by (simp add: pckReadUInt64Internal_def)
qed

theorem pckReadUInt64Internal_errors_witness:
  "pckReadUInt64Internal
     (pckReadNewBuf [0x80, 0x80, 0x80, 0x80, 0x80, 0x80, 0x80, 0x80, 0x80, 0x80, 0x01]) =
     Inl (FormatError ''unterminated base-128 integer'' []) \<and>
   pckReadUInt64Internal (pckReadNewBuf [0xFF, 0x80]) = Inl (FormatError ''unexpected EOF'' [])"
  using pckReadUInt64Internal_errors
      [of "pckReadNewBuf [0x80, 0x80, 0x80, 0x80, 0x80, 0x80, 0x80, 0x80, 0x80, 0x80, 0x01]"
          "[0x80, 0x80, 0x80, 0x80, 0x80, 0x80, 0x80, 0x80, 0x80, 0x80]" "[0x01]"]
    pckReadUInt64Internal_errors [of "pckReadNewBuf [0xFF, 0x80]" "[0xFF, 0x80]" "[]"]
  by (simp add: PACK_UINT64_SIZE_MAX_def)


text \<open>The value of \<open>*id\<close> after the first statement of \<open>pckReadTag\<close>.\<close>

section \<open>Absent fields\<close>

definition pckReadTagIdEff :: "PackRead \<Rightarrow> u32 \<Rightarrow> u32" where
  "pckReadTagIdEff this fid = (if fid = 0 then idLast (tagStackTop this) + 1 else fid)"

definition pckReadIdLastSet :: "PackRead \<Rightarrow> u32 \<Rightarrow> PackRead" where
  "pckReadIdLastSet this n = this\<lparr>tagStackTop := (tagStackTop this)\<lparr>idLast := n\<rparr>\<rparr>"

lemma pckReadTag_absent_peek:
  assumes "fid = 0 \<or> idLast (tagStackTop r) < fid" and "pckReadTagFill r = Inr r1"
    and "pckReadTagIdEff r fid < tagNextId r1"
  shows "pckReadTag r fid pckTypeUnknown True = Inr (pckReadTagIdEff r fid, tagNextValue r1, r1)"
  using assms
  by (auto simp: pckReadTag_def pckReadTagIdEff_def pckReadTagLoop.simps [of r] Let_def not_le)

lemma pckReadTag_absent:
  assumes "fid = 0 \<or> idLast (tagStackTop r) < fid" and "pckReadTagFill r = Inr r1"
    and "pckReadTagIdEff r fid < tagNextId r1" and "ty \<noteq> pckTypeUnknown"
  shows "pckReadTag r fid ty False =
           Inl (FormatError ''field %u does not exist'' [ArgUInt (pckReadTagIdEff r fid)])"
  using assms
  by (auto simp: pckReadTag_def pckReadTagIdEff_def pckReadTagLoop.simps [of r] Let_def not_le)

lemma pckReadField_absent:
  assumes "fid = 0 \<or> idLast (tagStackTop r) < fid" and "pckReadTagFill r = Inr r1"
    and "pckReadTagIdEff r fid < tagNextId r1" and "ty \<noteq> pckTypeUnknown"
  shows "pckReadField r fid True ty = Inr (None, pckReadIdLastSet r1 (pckReadTagIdEff r fid))"
    and "pckReadField r fid False ty =
           Inl (FormatError ''field %u does not exist'' [ArgUInt (pckReadTagIdEff r fid)])"
  using pckReadTag_absent_peek [OF assms(1-3)] pckReadTag_absent [OF assms] assms(3)
  by (simp_all add: pckReadField_def pckReadDefaultNull_def pckReadNullInternal_def
      pckReadIdLastSet_def)

lemma pckReadField_already_read:
  assumes "fid \<noteq> 0" and "fid \<le> idLast (tagStackTop r)" and "ty \<noteq> pckTypeUnknown"
  shows "pckReadField r fid dn ty = Inl (FormatError ''field %u was already read'' [ArgUInt fid])"
  using assms
  by (simp add: pckReadField_def pckReadDefaultNull_def pckReadNullInternal_def pckReadTag_def)

subsection \<open>Facts about words\<close>

lemma ucast_u32_u64_id: "(ucast (ucast (x :: u32) :: u64) :: u32) = x"
  by (rule bit_word_eqI) (auto simp: bit_simps)

lemma take_drop_join: "(x AND mask k) OR push_bit k (drop_bit k x) = (x :: u32)"
proof (rule bit_word_eqI)
  fix n assume "n < LENGTH(32)"
  then show "bit ((x AND mask k) OR push_bit k (drop_bit k x)) n = bit x n"
    by (cases "n < k") (auto simp: bit_simps)
qed

lemma drop_zero_mask: "drop_bit k x = 0 \<Longrightarrow> x AND mask k = (x :: u32)"
  using take_drop_join [of x k] by simp

lemma u32_and1_cases: "(x :: u32) AND 1 = 0 \<or> x AND 1 = 1"
proof -
  have "x AND 1 \<le> 1" by (rule word_and_le1)
  then show ?thesis
    unfolding word_unat_eq_iff word_le_nat_alt by simp arith
qed

lemma u32_and3_cases: "(x :: u32) AND 3 = 0 \<or> x AND 3 = 1 \<or> x AND 3 = 2 \<or> x AND 3 = 3"
proof -
  have "x AND 3 \<le> 3" by (rule word_and_le1)
  then show ?thesis
    unfolding word_unat_eq_iff word_le_nat_alt by simp arith
qed

lemma u32_and7_cases:
  "(x :: u32) AND 7 = 0 \<or> x AND 7 = 1 \<or> x AND 7 = 2 \<or> x AND 7 = 3 \<or>
   x AND 7 = 4 \<or> x AND 7 = 5 \<or> x AND 7 = 6 \<or> x AND 7 = 7"
proof -
  have "x AND 7 \<le> 7" by (rule word_and_le1)
  then show ?thesis
    unfolding word_unat_eq_iff word_le_nat_alt by simp arith
qed

lemma u64_lt2_cases: "(v :: u64) < 2 \<Longrightarrow> v = 0 \<or> v = 1"
  unfolding word_unat_eq_iff word_less_nat_alt by simp arith


section \<open>Tags: what the writer emits is what the reader parses\<close>

text \<open>
  The bytes \<open>pckWriteTag\<close> emits for a field of type \<open>type\<close> with ID delta \<open>tagId\<close> and value
  \<open>value\<close>: the tag byte, the rest of the ID delta and the rest of the value.
\<close>

definition pckTagBytes :: "PackType \<Rightarrow> u32 \<Rightarrow> u64 \<Rightarrow> byte list" where
  "pckTagBytes type tagId value =
     (case pckWriteTagBits type tagId value of
        None \<Rightarrow> []
      | Some (tag, tagId1, value1) \<Rightarrow>
          [ucast tag] @ (if tagId1 > 0 then pckUInt64Bytes (ucast tagId1) else []) @
          (if value1 > 0 then pckUInt64Bytes value1 else []))"

text \<open>The values a tag of the type can carry: one bit unless the type is multi-bit.\<close>

definition pckTagValueOk :: "PackType \<Rightarrow> u64 \<Rightarrow> bool" where
  "pckTagValueOk type value =
     (if valueMultiBit (packTypeData type) then True
      else if valueSingleBit (packTypeData type) then value < 2
      else value = 0)"

lemma pckWriteOutput_stack [simp]:
  "pckWriteOutput (w\<lparr>wTagStackTop := t\<rparr>) = pckWriteOutput w"
  "pckWriteOutput (w\<lparr>wTagStack := ts\<rparr>) = pckWriteOutput w"
  by (simp_all add: pckWriteOutput_def split: option.splits)

lemma pckWriteUInt64Internal_output:
  "pckWriteOutput (pckWriteUInt64Internal w v) = pckWriteOutput w @ pckUInt64Bytes v"
  "wTagStack (pckWriteUInt64Internal w v) = wTagStack w"
  "wTagStackTop (pckWriteUInt64Internal w v) = wTagStackTop w"
  by (simp_all add: pckWriteUInt64Internal_def pckWriteBuffer_output)

lemma pckWriteTagBits_Some:
  "pckTagValueOk ty v \<Longrightarrow> \<exists>x. pckWriteTagBits ty d v = Some x"
  by (auto simp: pckWriteTagBits_def pckTagValueOk_def Let_def split: if_splits)

definition pckWriteTagIdEff :: "PackWrite \<Rightarrow> u32 \<Rightarrow> u32" where
  "pckWriteTagIdEff this fid =
     (if fid = 0 then idLast (wTagStackTop this) + nullTotal (wTagStackTop this) + 1 else fid)"

lemma pckWriteTag_output:
  assumes "fid = 0 \<or> idLast (wTagStackTop w) < fid" and "pckTagValueOk ty v"
  shows "\<exists>w'. pckWriteTag w ty fid v = Inr w' \<and>
           pckWriteOutput w' =
             pckWriteOutput w @ pckTagBytes ty (pckWriteTagIdEff w fid - idLast (wTagStackTop w) - 1) v \<and>
           wTagStack w' = wTagStack w \<and>
           wTagStackTop w' = (wTagStackTop w)\<lparr>idLast := pckWriteTagIdEff w fid, nullTotal := 0\<rparr>"
proof -
  from pckWriteTagBits_Some [OF assms(2)] obtain tag tagId v1 where
    b: "pckWriteTagBits ty (pckWriteTagIdEff w fid - idLast (wTagStackTop w) - 1) v = Some (tag, tagId, v1)"
    by (metis prod_cases3)
  show ?thesis
    using assms(1) b
    by (auto simp: pckWriteTag_def pckWriteTagIdEff_def pckTagBytes_def Let_def
        pckWriteUInt64Internal_output pckWriteBuffer_output not_less)
qed

lemma nib_G:
  fixes o' L' :: u64
  assumes "t = (ucast (ucast (push_bit 4 (take_bit 4 o') OR take_bit 4 L' :: u64) :: byte) :: u32)"
  shows "drop_bit 4 t = ucast (take_bit 4 o')" and "t AND mask 4 = ucast (take_bit 4 L')"
  unfolding assms
  by (rule bit_word_eqI; auto simp: bit_simps)+

lemma nib_flags:
  fixes t c :: u32
  assumes "t AND mask 4 = c"
  shows "t AND 8 = c AND 8" "t AND 4 = c AND 4" "t AND 3 = c AND 3" "t AND 7 = c AND 7"
    "t AND 2 = c AND 2" "t AND 1 = c AND 1"
    "drop_bit 2 t AND 1 = drop_bit 2 c AND 1" "drop_bit 3 t AND 1 = drop_bit 3 c AND 1"
proof -
  have m: "(8 :: u32) = mask 4 AND 8" "(4 :: u32) = mask 4 AND 4" "(3 :: u32) = mask 4 AND 3"
    "(7 :: u32) = mask 4 AND 7" "(2 :: u32) = mask 4 AND 2" "(1 :: u32) = mask 4 AND 1"
    by (simp_all add: mask_eq_exp_minus_1)
  show "t AND 8 = c AND 8" by (subst m(1)) (simp add: and.assoc [symmetric] assms)
  show "t AND 4 = c AND 4" by (subst m(2)) (simp add: and.assoc [symmetric] assms)
  show "t AND 3 = c AND 3" by (subst m(3)) (simp add: and.assoc [symmetric] assms)
  show "t AND 7 = c AND 7" by (subst m(4)) (simp add: and.assoc [symmetric] assms)
  show "t AND 2 = c AND 2" by (subst m(5)) (simp add: and.assoc [symmetric] assms)
  show "t AND 1 = c AND 1" by (subst m(6)) (simp add: and.assoc [symmetric] assms)
  have "drop_bit 2 t AND 1 = drop_bit 2 (t AND mask 4) AND 1"
    by (rule bit_word_eqI) (auto simp: bit_simps)
  then show "drop_bit 2 t AND 1 = drop_bit 2 c AND 1" by (simp add: assms)
  have "drop_bit 3 t AND 1 = drop_bit 3 (t AND mask 4) AND 1"
    by (rule bit_word_eqI) (auto simp: bit_simps)
  then show "drop_bit 3 t AND 1 = drop_bit 3 c AND 1" by (simp add: assms)
qed

lemma packTypeOrd_facts:
  "take_bit 4 (of_nat (packTypeOrd ty) :: u64) = of_nat (packTypeOrd ty)"
  "unat (ucast (of_nat (packTypeOrd ty) :: u64) :: u32) = packTypeOrd ty"
  "packTypeOfOrd (packTypeOrd ty) = Some ty"
  "(packTypeOrd ty = 0) = (ty = pckTypeUnknown)"
  by (cases ty; simp add: packTypeOfOrd_def)+

text \<open>
  The tag byte as the reader sees it (\<open>t\<close>), when the tag is the type in the high nibble
  and \<open>n\<close> in the low one.
\<close>

lemma pckTag_nibble:
  assumes "tag = push_bit 4 (of_nat (packTypeOrd ty)) OR n" and "take_bit 4 n = n"
    and "ty \<noteq> pckTypeUnknown" and "t = (ucast (ucast (tag :: u64) :: byte) :: u32)"
  shows "t \<noteq> 0" and "packTypeOfOrd (unat (drop_bit 4 t)) = Some ty" and "t AND mask 4 = ucast n"
proof -
  have t: "t = (ucast (ucast (push_bit 4 (take_bit 4 (of_nat (packTypeOrd ty))) OR take_bit 4 n :: u64) :: byte) :: u32)"
    using assms(1,2,4) by (simp add: packTypeOrd_facts(1))
  from nib_G [OF t]
  have d: "drop_bit 4 t = ucast (of_nat (packTypeOrd ty) :: u64)" and m: "t AND mask 4 = ucast n"
    by (simp_all add: packTypeOrd_facts(1) assms(2))
  from d have u: "unat (drop_bit 4 t) = packTypeOrd ty"
    by (simp only: packTypeOrd_facts(2))
  then show "packTypeOfOrd (unat (drop_bit 4 t)) = Some ty"
    by (simp add: packTypeOrd_facts(3))
  show "t \<noteq> 0"
  proof
    assume "t = 0"
    with u have "packTypeOrd ty = 0" by simp
    with assms(3) show False by (simp add: packTypeOrd_facts(4))
  qed
  show "t AND mask 4 = ucast n" by (rule m)
qed

lemma multi_not_unknown: "valueMultiBit (packTypeData ty) \<Longrightarrow> ty \<noteq> pckTypeUnknown"
  by (cases ty) (simp_all add: ptd_def)

lemma single_not_unknown: "valueSingleBit (packTypeData ty) \<Longrightarrow> ty \<noteq> pckTypeUnknown"
  by (cases ty) (simp_all add: ptd_def)

lemma pckTag_multi_large:
  assumes "valueMultiBit (packTypeData ty)" and "\<not> v < 2"
    and "pckWriteTagBits ty d v = Some (tag, tagId1, v1)" and "t = (ucast (ucast tag :: byte) :: u32)"
  shows "tagId1 = drop_bit 2 d \<and> v1 = v \<and> t \<noteq> 0 \<and> packTypeOfOrd (unat (drop_bit 4 t)) = Some ty \<and>
         t AND 0x8 \<noteq> 0 \<and> t AND 0x3 = d AND 0x3 \<and> (t AND 0x4 \<noteq> 0) = (0 < drop_bit 2 d)"
proof -
  obtain a where a: "d AND 3 = a" "a = 0 \<or> a = 1 \<or> a = 2 \<or> a = 3"
    using u32_and3_cases [of d] by blast
  define n :: u64 where "n = 8 OR (ucast a OR (if 0 < drop_bit 2 d then 4 else 0))"
  have tag: "tag = push_bit 4 (of_nat (packTypeOrd ty)) OR n" "tagId1 = drop_bit 2 d" "v1 = v"
    using assms(1-3) a(1) by (auto simp: pckWriteTagBits_def Let_def n_def or.assoc)
  have n4: "take_bit 4 n = n" using a(2) by (auto simp: n_def)
  have c: "(ucast n :: u32) AND 8 \<noteq> 0" "(ucast n :: u32) AND 3 = a"
    "((ucast n :: u32) AND 4 \<noteq> 0) = (0 < drop_bit 2 d)"
    using a(2) by (auto simp: n_def)
  from pckTag_nibble [OF tag(1) n4 multi_not_unknown [OF assms(1)] assms(4)]
  have "t \<noteq> 0" "packTypeOfOrd (unat (drop_bit 4 t)) = Some ty" "t AND mask 4 = ucast n"
    by simp_all
  with nib_flags [OF this(3)] c tag a(1) show ?thesis
    by simp
qed

lemma pckTag_multi_small:
  assumes "valueMultiBit (packTypeData ty)" and "v < 2"
    and "pckWriteTagBits ty d v = Some (tag, tagId1, v1)" and "t = (ucast (ucast tag :: byte) :: u32)"
  shows "tagId1 = drop_bit 1 d \<and> v1 = 0 \<and> t \<noteq> 0 \<and> packTypeOfOrd (unat (drop_bit 4 t)) = Some ty \<and>
         t AND 0x8 = 0 \<and> t AND 0x1 = d AND 0x1 \<and> (t AND 0x2 \<noteq> 0) = (0 < drop_bit 1 d) \<and>
         (ucast (drop_bit 2 t AND 0x1) :: u64) = v"
proof -
  obtain a where a: "d AND 1 = a" "a = 0 \<or> a = 1"
    using u32_and1_cases [of d] by blast
  note v = u64_lt2_cases [OF assms(2)]
  define n :: u64 where "n = push_bit 2 v OR (ucast a OR (if 0 < drop_bit 1 d then 2 else 0))"
  have tag: "tag = push_bit 4 (of_nat (packTypeOrd ty)) OR n" "tagId1 = drop_bit 1 d" "v1 = 0"
    using assms(1-3) a(1) v by (auto simp: pckWriteTagBits_def Let_def n_def or.assoc drop_bit_eq_div)
  have n4: "take_bit 4 n = n" using a(2) v by (auto simp: n_def)
  have c: "(ucast n :: u32) AND 8 = 0" "(ucast n :: u32) AND 1 = a"
    "((ucast n :: u32) AND 2 \<noteq> 0) = (0 < drop_bit 1 d)"
    "(ucast (drop_bit 2 (ucast n :: u32) AND 1) :: u64) = v"
    using a(2) v by (auto simp: n_def drop_bit_eq_div)
  from pckTag_nibble [OF tag(1) n4 multi_not_unknown [OF assms(1)] assms(4)]
  have "t \<noteq> 0" "packTypeOfOrd (unat (drop_bit 4 t)) = Some ty" "t AND mask 4 = ucast n"
    by simp_all
  with nib_flags [OF this(3)] c tag a(1) show ?thesis
    by simp
qed

lemma pckTag_single:
  assumes "\<not> valueMultiBit (packTypeData ty)" and "valueSingleBit (packTypeData ty)" and "v < 2"
    and "pckWriteTagBits ty d v = Some (tag, tagId1, v1)" and "t = (ucast (ucast tag :: byte) :: u32)"
  shows "tagId1 = drop_bit 2 d \<and> v1 = 0 \<and> t \<noteq> 0 \<and> packTypeOfOrd (unat (drop_bit 4 t)) = Some ty \<and>
         t AND 0x3 = d AND 0x3 \<and> (t AND 0x4 \<noteq> 0) = (0 < drop_bit 2 d) \<and>
         (ucast (drop_bit 3 t AND 0x1) :: u64) = v"
proof -
  obtain a where a: "d AND 3 = a" "a = 0 \<or> a = 1 \<or> a = 2 \<or> a = 3"
    using u32_and3_cases [of d] by blast
  note v = u64_lt2_cases [OF assms(3)]
  define n :: u64 where "n = push_bit 3 v OR (ucast a OR (if 0 < drop_bit 2 d then 4 else 0))"
  have tag: "tag = push_bit 4 (of_nat (packTypeOrd ty)) OR n" "tagId1 = drop_bit 2 d" "v1 = 0"
    using assms(1-4) a(1) v by (auto simp: pckWriteTagBits_def Let_def n_def or.assoc drop_bit_eq_div)
  have n4: "take_bit 4 n = n" using a(2) v by (auto simp: n_def)
  have c: "(ucast n :: u32) AND 3 = a"
    "((ucast n :: u32) AND 4 \<noteq> 0) = (0 < drop_bit 2 d)"
    "(ucast (drop_bit 3 (ucast n :: u32) AND 1) :: u64) = v"
    using a(2) v by (auto simp: n_def drop_bit_eq_div)
  from pckTag_nibble [OF tag(1) n4 single_not_unknown [OF assms(2)] assms(5)]
  have "t \<noteq> 0" "packTypeOfOrd (unat (drop_bit 4 t)) = Some ty" "t AND mask 4 = ucast n"
    by simp_all
  with nib_flags [OF this(3)] c tag a(1) show ?thesis
    by simp
qed

lemma pckTag_container:
  assumes "\<not> valueMultiBit (packTypeData ty)" and "\<not> valueSingleBit (packTypeData ty)"
    and "ty \<noteq> pckTypeUnknown"
    and "pckWriteTagBits ty d v = Some (tag, tagId1, v1)" and "t = (ucast (ucast tag :: byte) :: u32)"
  shows "tagId1 = drop_bit 3 d \<and> v = 0 \<and> v1 = 0 \<and> t \<noteq> 0 \<and>
         packTypeOfOrd (unat (drop_bit 4 t)) = Some ty \<and>
         t AND 0x7 = d AND 0x7 \<and> (t AND 0x8 \<noteq> 0) = (0 < drop_bit 3 d)"
proof -
  obtain a where a: "d AND 7 = a" "a = 0 \<or> a = 1 \<or> a = 2 \<or> a = 3 \<or> a = 4 \<or> a = 5 \<or> a = 6 \<or> a = 7"
    using u32_and7_cases [of d] by blast
  define n :: u64 where "n = ucast a OR (if 0 < drop_bit 3 d then 8 else 0)"
  have tag: "tag = push_bit 4 (of_nat (packTypeOrd ty)) OR n" "tagId1 = drop_bit 3 d" "v1 = 0" "v = 0"
    using assms(1-4) a(1) by (auto simp: pckWriteTagBits_def Let_def n_def or.assoc split: if_splits)
  have n4: "take_bit 4 n = n" using a(2) by (auto simp: n_def)
  have c: "(ucast n :: u32) AND 7 = a"
    "((ucast n :: u32) AND 8 \<noteq> 0) = (0 < drop_bit 3 d)"
    using a(2) by (auto simp: n_def)
  from pckTag_nibble [OF tag(1) n4 assms(3) assms(5)]
  have "t \<noteq> 0" "packTypeOfOrd (unat (drop_bit 4 t)) = Some ty" "t AND mask 4 = ucast n"
    by simp_all
  with nib_flags [OF this(3)] c tag a(1) show ?thesis
    by simp
qed

lemma word_pos_iff: "(0 < (x :: 'a :: len word)) = (x \<noteq> 0)"
  by (simp add: word_greater_zero_iff)

lemma pckReadTagId_decode:
  assumes "pckReadInv r"
    and "pckReadStream r = (if 0 < drop_bit k d then pckUInt64Bytes (ucast (drop_bit k d)) else []) @ rest"
  shows "\<exists>r1. pckReadTagId r (d AND mask k) (0 < drop_bit k d) k = Inr (d, r1) \<and>
           pckReadStream r1 = rest \<and> pckReadInv r1 \<and> pckReadCtl r1 = pckReadCtl r"
proof (cases "0 < drop_bit k d")
  case False
  then have "drop_bit k d = 0" by (simp add: word_pos_iff)
  with assms False show ?thesis
    by (simp add: pckReadTagId_def drop_zero_mask)
next
  case True
  with assms(2) have "pckReadStream r = pckUInt64Bytes (ucast (drop_bit k d)) @ rest" by simp
  from pckReadUInt64Internal_decode [OF assms(1) this] True show ?thesis
    by (auto simp: pckReadTagId_def ucast_u32_u64_id take_drop_join)
qed

lemma pckReadStream_ctl [simp]:
  "pckReadStream (r\<lparr>tagNextId := i\<rparr>) = pckReadStream r"
  "pckReadStream (r\<lparr>tagNextType := t\<rparr>) = pckReadStream r"
  "pckReadStream (r\<lparr>tagNextValue := v\<rparr>) = pckReadStream r"
  "pckReadStream (r\<lparr>tagStack := s\<rparr>) = pckReadStream r"
  "pckReadStream (r\<lparr>tagStackTop := f\<rparr>) = pckReadStream r"
  by (simp_all add: pckReadStream_def)

lemma pckReadInv_ctl [simp]:
  "pckReadInv (r\<lparr>tagNextId := i\<rparr>) = pckReadInv r"
  "pckReadInv (r\<lparr>tagNextType := t\<rparr>) = pckReadInv r"
  "pckReadInv (r\<lparr>tagNextValue := v\<rparr>) = pckReadInv r"
  "pckReadInv (r\<lparr>tagStack := s\<rparr>) = pckReadInv r"
  "pckReadInv (r\<lparr>tagStackTop := f\<rparr>) = pckReadInv r"
  by (simp_all add: pckReadInv_def split: option.splits)

lemma pckReadCtl_ctl [simp]:
  "pckReadCtl (r\<lparr>tagNextId := i\<rparr>) = (pckReadCtl r)\<lparr>tagNextId := i\<rparr>"
  "pckReadCtl (r\<lparr>tagNextType := t\<rparr>) = (pckReadCtl r)\<lparr>tagNextType := t\<rparr>"
  "pckReadCtl (r\<lparr>tagNextValue := v\<rparr>) = (pckReadCtl r)\<lparr>tagNextValue := v\<rparr>"
  "pckReadCtl (r\<lparr>tagStack := s\<rparr>) = (pckReadCtl r)\<lparr>tagStack := s\<rparr>"
  "pckReadCtl (r\<lparr>tagStackTop := f\<rparr>) = (pckReadCtl r)\<lparr>tagStackTop := f\<rparr>"
  by (simp_all add: pckReadCtl_def)

lemma pckReadCtl_sel [simp]:
  "tagNextId (pckReadCtl r) = tagNextId r"
  "tagNextType (pckReadCtl r) = tagNextType r"
  "tagNextValue (pckReadCtl r) = tagNextValue r"
  "tagStack (pckReadCtl r) = tagStack r"
  "tagStackTop (pckReadCtl r) = tagStackTop r"
  "bufferSizeAlloc (pckReadCtl r) = bufferSizeAlloc r"
  by (simp_all add: pckReadCtl_def)

lemma pckReadCtl_eqD:
  assumes "pckReadCtl a = pckReadCtl b"
  shows "tagNextId a = tagNextId b" "tagNextType a = tagNextType b" "tagNextValue a = tagNextValue b"
    "tagStack a = tagStack b" "tagStackTop a = tagStackTop b"
  using arg_cong [OF assms, of tagNextId] arg_cong [OF assms, of tagNextType]
    arg_cong [OF assms, of tagNextValue] arg_cong [OF assms, of tagStack]
    arg_cong [OF assms, of tagStackTop]
  by simp_all

lemma mask_small: "(mask 1 :: u32) = 1" "(mask 2 :: u32) = 3" "(mask 3 :: u32) = 7"
  by (simp_all add: mask_eq_exp_minus_1)

lemma pckReadTagNext_decode:
  assumes inv: "pckReadInv r" and str: "pckReadStream r = pckTagBytes ty d v @ rest"
    and ok: "pckTagValueOk ty v" and ty: "ty \<noteq> pckTypeUnknown"
  shows "\<exists>r1. pckReadTagNext r = Inr (True, r1) \<and> pckReadStream r1 = rest \<and> pckReadInv r1 \<and>
           pckReadCtl r1 = (pckReadCtl r)\<lparr>tagNextId := d + (idLast (tagStackTop r) + 1),
                                          tagNextType := ty, tagNextValue := v\<rparr>"
proof -
  from pckWriteTagBits_Some [OF ok] obtain tag tagId1 v1 where
    bits: "pckWriteTagBits ty d v = Some (tag, tagId1, v1)"
    by (metis prod_cases3)
  define idb where "idb = (if 0 < tagId1 then pckUInt64Bytes (ucast tagId1) else [])"
  define vb where "vb = (if 0 < v1 then pckUInt64Bytes v1 else [])"
  have s: "pckReadStream r = ucast tag # (idb @ vb @ rest)"
    using str bits by (simp add: pckTagBytes_def idb_def vb_def)
  from pckReadBuffer_byte [OF inv s] obtain n r1 where
    rb: "pckReadBuffer r 1 = Inr (n, r1)" "bufferPtr r1 ! bufferPos r1 = ucast tag"
      "pckReadStream (r1\<lparr>bufferPos := bufferPos r1 + 1\<rparr>) = idb @ vb @ rest"
      "pckReadInv (r1\<lparr>bufferPos := bufferPos r1 + 1\<rparr>)" "pckReadCtl r1 = pckReadCtl r"
    by blast
  define t where "t = (ucast (ucast tag :: byte) :: u32)"
  define r3 where "r3 = r1\<lparr>bufferPos := bufferPos r1 + 1, tagNextType := ty\<rparr>"
  have r3: "pckReadInv r3" "pckReadStream r3 = idb @ vb @ rest"
    "pckReadCtl r3 = (pckReadCtl r)\<lparr>tagNextType := ty\<rparr>"
    using rb(3,4,5) by (simp_all add: r3_def)
  have r3': "r1\<lparr>bufferPos := Suc (bufferPos r1), tagNextType := ty\<rparr> = r3"
    by (simp add: r3_def)
  show ?thesis
  proof (cases "valueMultiBit (packTypeData ty)")
    case True
    show ?thesis
    proof (cases "v < 2")
      case False
      from pckTag_multi_large [OF True False bits t_def]
      have f: "tagId1 = drop_bit 2 d" "v1 = v" "t \<noteq> 0" "packTypeOfOrd (unat (drop_bit 4 t)) = Some ty"
        "t AND 0x8 \<noteq> 0" "t AND 0x3 = d AND mask 2" "(t AND 0x4 \<noteq> 0) = (0 < drop_bit 2 d)"
        by (simp_all add: mask_small)
      from False have vpos: "0 < v" by (auto simp: word_pos_iff)
      have "pckReadStream r3 = (if 0 < drop_bit 2 d then pckUInt64Bytes (ucast (drop_bit 2 d)) else [])
              @ (vb @ rest)"
        using r3(2) f(1) by (simp add: idb_def)
      from pckReadTagId_decode [OF r3(1) this] obtain r4 where
        r4: "pckReadTagId r3 (d AND mask 2) (0 < drop_bit 2 d) 2 = Inr (d, r4)"
          "pckReadStream r4 = vb @ rest" "pckReadInv r4" "pckReadCtl r4 = pckReadCtl r3"
        by blast
      have "pckReadStream r4 = pckUInt64Bytes v @ rest"
        using r4(2) f(2) vpos by (simp add: vb_def)
      from pckReadUInt64Internal_decode [OF r4(3) this] obtain r5 where
        r5: "pckReadUInt64Internal r4 = Inr (v, r5)" "pckReadStream r5 = rest" "pckReadInv r5"
          "pckReadCtl r5 = pckReadCtl r4"
        by blast
      have top: "tagStackTop r5 = tagStackTop r"
        using pckReadCtl_eqD(5) [OF r5(4)] pckReadCtl_eqD(5) [OF r4(4)] arg_cong [OF r3(3), of tagStackTop]
        by simp
      have "pckReadTagNext r = Inr (True, r5\<lparr>tagNextId := d + (idLast (tagStackTop r5) + 1),
                                              tagNextValue := v\<rparr>)"
        using rb(1,2) f True r4(1) r5(1)
        by (simp add: pckReadTagNext_def Let_def t_def [symmetric] r3')
      then show ?thesis
        using r5 r4(4) r3(3) top by simp
    next
      case small: True
      from pckTag_multi_small [OF True small bits t_def]
      have f: "tagId1 = drop_bit 1 d" "v1 = 0" "t \<noteq> 0" "packTypeOfOrd (unat (drop_bit 4 t)) = Some ty"
        "t AND 0x8 = 0" "t AND 0x1 = d AND mask 1" "(t AND 0x2 \<noteq> 0) = (0 < drop_bit 1 d)"
        "(ucast (drop_bit 2 t AND 0x1) :: u64) = v"
        by (simp_all add: mask_small)
      have "pckReadStream r3 = (if 0 < drop_bit 1 d then pckUInt64Bytes (ucast (drop_bit 1 d)) else [])
              @ rest"
        using r3(2) f(1,2) by (simp add: idb_def vb_def)
      from pckReadTagId_decode [OF r3(1) this] obtain r4 where
        r4: "pckReadTagId r3 (d AND mask 1) (0 < drop_bit 1 d) 1 = Inr (d, r4)"
          "pckReadStream r4 = rest" "pckReadInv r4" "pckReadCtl r4 = pckReadCtl r3"
        by blast
      have top: "tagStackTop r4 = tagStackTop r"
        using pckReadCtl_eqD(5) [OF r4(4)] arg_cong [OF r3(3), of tagStackTop]
        by simp
      have "pckReadTagNext r = Inr (True, r4\<lparr>tagNextId := d + (idLast (tagStackTop r4) + 1),
                                              tagNextValue := v\<rparr>)"
        using rb(1,2) f True r4(1)
        by (simp add: pckReadTagNext_def Let_def t_def [symmetric] r3')
      then show ?thesis
        using r4 r3(3) top by simp
    qed
  next
    case nm: False
    show ?thesis
    proof (cases "valueSingleBit (packTypeData ty)")
      case True
      with ok nm have v2: "v < 2" by (simp add: pckTagValueOk_def)
      from pckTag_single [OF nm True v2 bits t_def]
      have f: "tagId1 = drop_bit 2 d" "v1 = 0" "t \<noteq> 0" "packTypeOfOrd (unat (drop_bit 4 t)) = Some ty"
        "t AND 0x3 = d AND mask 2" "(t AND 0x4 \<noteq> 0) = (0 < drop_bit 2 d)"
        "(ucast (drop_bit 3 t AND 0x1) :: u64) = v"
        by (simp_all add: mask_small)
      have "pckReadStream r3 = (if 0 < drop_bit 2 d then pckUInt64Bytes (ucast (drop_bit 2 d)) else [])
              @ rest"
        using r3(2) f(1,2) by (simp add: idb_def vb_def)
      from pckReadTagId_decode [OF r3(1) this] obtain r4 where
        r4: "pckReadTagId r3 (d AND mask 2) (0 < drop_bit 2 d) 2 = Inr (d, r4)"
          "pckReadStream r4 = rest" "pckReadInv r4" "pckReadCtl r4 = pckReadCtl r3"
        by blast
      have top: "tagStackTop r4 = tagStackTop r"
        using pckReadCtl_eqD(5) [OF r4(4)] arg_cong [OF r3(3), of tagStackTop]
        by simp
      have "pckReadTagNext r = Inr (True, r4\<lparr>tagNextId := d + (idLast (tagStackTop r4) + 1),
                                              tagNextValue := v\<rparr>)"
        using rb(1,2) f nm True r4(1)
        by (simp add: pckReadTagNext_def Let_def t_def [symmetric] r3')
      then show ?thesis
        using r4 r3(3) top by simp
    next
      case False
      from pckTag_container [OF nm False ty bits t_def]
      have f: "tagId1 = drop_bit 3 d" "v = 0" "v1 = 0" "t \<noteq> 0"
        "packTypeOfOrd (unat (drop_bit 4 t)) = Some ty"
        "t AND 0x7 = d AND mask 3" "(t AND 0x8 \<noteq> 0) = (0 < drop_bit 3 d)"
        by (simp_all add: mask_small)
      have "pckReadStream r3 = (if 0 < drop_bit 3 d then pckUInt64Bytes (ucast (drop_bit 3 d)) else [])
              @ rest"
        using r3(2) f(1,3) by (simp add: idb_def vb_def)
      from pckReadTagId_decode [OF r3(1) this] obtain r4 where
        r4: "pckReadTagId r3 (d AND mask 3) (0 < drop_bit 3 d) 3 = Inr (d, r4)"
          "pckReadStream r4 = rest" "pckReadInv r4" "pckReadCtl r4 = pckReadCtl r3"
        by blast
      have top: "tagStackTop r4 = tagStackTop r"
        using pckReadCtl_eqD(5) [OF r4(4)] arg_cong [OF r3(3), of tagStackTop]
        by simp
      have "pckReadTagNext r = Inr (True, r4\<lparr>tagNextId := d + (idLast (tagStackTop r4) + 1),
                                              tagNextValue := v\<rparr>)"
        using rb(1,2) f nm False r4(1)
        by (simp add: pckReadTagNext_def Let_def t_def [symmetric] r3')
      then show ?thesis
        using r4 r3(3) top by simp
    qed
  qed
qed


section \<open>Reading a field that is present\<close>

lemma pckReadTagFill_decode:
  assumes "pckReadInv r" and "tagNextId r = 0" and "pckReadStream r = pckTagBytes ty d v @ rest"
    and "pckTagValueOk ty v" and "ty \<noteq> pckTypeUnknown"
  shows "\<exists>r1. pckReadTagFill r = Inr r1 \<and> pckReadStream r1 = rest \<and> pckReadInv r1 \<and>
           pckReadCtl r1 = (pckReadCtl r)\<lparr>tagNextId := d + (idLast (tagStackTop r) + 1),
                                          tagNextType := ty, tagNextValue := v\<rparr>"
  using pckReadTagNext_decode [OF assms(1,3,4,5)] assms(2)
  by (auto simp: pckReadTagFill_def)

lemma pckReadTagDone_props [simp]:
  "pckReadStream (pckReadTagDone r) = pckReadStream r"
  "pckReadInv (pckReadTagDone r) = pckReadInv r"
  "pckReadCtl (pckReadTagDone r) = pckReadTagDone (pckReadCtl r)"
  by (simp_all add: pckReadTagDone_def)

text \<open>
  A reader without lookahead whose input starts with the tag of a field of type \<open>ty\<close>, ID
  \<open>fid\<close> and value \<open>v\<close>: a read of that type at that ID, with or without \<open>defaultNull\<close>,
  returns \<open>v\<close> and makes \<open>fid\<close> the last ID of the frame.
\<close>

lemma pckReadField_present:
  assumes inv: "pckReadInv r" and la: "tagNextId r = 0"
    and str: "pckReadStream r = pckTagBytes ty (fid - idLast (tagStackTop r) - 1) v @ rest"
    and lt: "idLast (tagStackTop r) < fid" and ok: "pckTagValueOk ty v" and ty: "ty \<noteq> pckTypeUnknown"
  shows "\<exists>r1. pckReadField r fid dn ty = Inr (Some v, r1) \<and> pckReadStream r1 = rest \<and> pckReadInv r1 \<and>
           pckReadCtl r1 = (pckReadCtl r)\<lparr>tagNextId := 0, tagNextType := ty, tagNextValue := v,
              tagStackTop := (tagStackTop r)\<lparr>idLast := fid\<rparr>\<rparr>"
proof -
  from pckReadTagFill_decode [OF inv la str ok ty] obtain r1 where
    r1: "pckReadTagFill r = Inr r1" "pckReadStream r1 = rest" "pckReadInv r1"
      "pckReadCtl r1 = (pckReadCtl r)\<lparr>tagNextId := fid - idLast (tagStackTop r) - 1 + (idLast (tagStackTop r) + 1),
                                          tagNextType := ty, tagNextValue := v\<rparr>"
    by blast
  have c: "pckReadCtl r1 = (pckReadCtl r)\<lparr>tagNextId := fid, tagNextType := ty, tagNextValue := v\<rparr>"
    using r1(4) by simp
  have f: "tagNextId r1 = fid" "tagNextType r1 = ty" "tagNextValue r1 = v" "tagStackTop r1 = tagStackTop r"
    using arg_cong [OF c, of tagNextId] arg_cong [OF c, of tagNextType]
      arg_cong [OF c, of tagNextValue] arg_cong [OF c, of tagStackTop]
    by simp_all
  from lt have nz: "fid \<noteq> 0" by auto
  from lt have nle: "\<not> fid \<le> idLast (tagStackTop r)" by simp
  have fill1: "pckReadTagFill r1 = Inr r1"
    using f(1) nz by (simp add: pckReadTagFill_def)
  have peek: "pckReadTag r fid pckTypeUnknown True = Inr (fid, v, r1)"
    using r1(1) f nz nle by (simp add: pckReadTag_def pckReadTagLoop.simps [of r])
  have take: "pckReadTag r fid ty False = Inr (fid, v, pckReadTagDone r1)"
    using r1(1) f nz nle ty
    by (simp add: pckReadTag_def pckReadTagLoop.simps [of r] pckReadTagDone_def)
  have take1: "pckReadTag r1 fid ty False = Inr (fid, v, pckReadTagDone r1)"
    using fill1 f nz nle ty
    by (simp add: pckReadTag_def pckReadTagLoop.simps [of r1] pckReadTagDone_def)
  have "pckReadField r fid dn ty = Inr (Some v, pckReadTagDone r1)"
    using peek take take1 f(1)
    by (cases dn) (simp_all add: pckReadField_def pckReadDefaultNull_def pckReadNullInternal_def)
  moreover have "pckReadCtl (pckReadTagDone r1) = (pckReadCtl r)\<lparr>tagNextId := 0, tagNextType := ty,
       tagNextValue := v, tagStackTop := (tagStackTop r)\<lparr>idLast := fid\<rparr>\<rparr>"
    using c f by (simp add: pckReadTagDone_def)
  ultimately show ?thesis
    using r1(2,3) by simp
qed

section \<open>Sequences of writes\<close>

text \<open>
  A call of the writer's interface, with the arguments in the order of the model's
  functions: the value, \<open>param.id\<close>, \<open>param.defaultNull\<close> and \<open>param.defaultValue\<close>.
\<close>

datatype PackWriteOp =
    WriteNull
  | WriteArrayBegin u32
  | WriteArrayEnd
  | WriteBin "byte list option" u32 bool
  | WriteBool bool u32 bool bool
  | WriteI32 "32 word" u32 bool "32 word"
  | WriteI64 "64 word" u32 bool "64 word"
  | WriteObjBegin u32
  | WriteObjEnd
  | WritePtr u64 u32 bool
  | WriteStr "byte list option" u32 bool "byte list option"
  | WriteTime "64 word" u32 bool "64 word"
  | WriteU32 u32 u32 bool u32
  | WriteU64 u64 u32 bool u64

fun pckWriteOp :: "PackWrite \<Rightarrow> PackWriteOp \<Rightarrow> error + PackWrite" where
  "pckWriteOp this WriteNull = Inr (pckWriteNull this)"
| "pckWriteOp this (WriteArrayBegin fid) = pckWriteArrayBegin this fid"
| "pckWriteOp this WriteArrayEnd = pckWriteArrayEnd this"
| "pckWriteOp this (WriteBin v fid dn) = pckWriteBin this v fid dn"
| "pckWriteOp this (WriteBool v fid dn dv) = pckWriteBool this v fid dn dv"
| "pckWriteOp this (WriteI32 v fid dn dv) = pckWriteI32 this v fid dn dv"
| "pckWriteOp this (WriteI64 v fid dn dv) = pckWriteI64 this v fid dn dv"
| "pckWriteOp this (WriteObjBegin fid) = pckWriteObjBegin this fid"
| "pckWriteOp this WriteObjEnd = pckWriteObjEnd this"
| "pckWriteOp this (WritePtr v fid dn) = pckWritePtr this v fid dn"
| "pckWriteOp this (WriteStr v fid dn dv) = pckWriteStr this v fid dn dv"
| "pckWriteOp this (WriteTime v fid dn dv) = pckWriteTime this v fid dn dv"
| "pckWriteOp this (WriteU32 v fid dn dv) = pckWriteU32 this v fid dn dv"
| "pckWriteOp this (WriteU64 v fid dn dv) = pckWriteU64 this v fid dn dv"

fun pckWriteOps :: "PackWrite \<Rightarrow> PackWriteOp list \<Rightarrow> error + PackWrite" where
  "pckWriteOps this [] = Inr this"
| "pckWriteOps this (x # xs) =
     (case pckWriteOp this x of Inl e \<Rightarrow> Inl e | Inr this1 \<Rightarrow> pckWriteOps this1 xs)"

text \<open>The writes, then \<open>pckWriteEnd\<close>: the result is the bytes of the pack.\<close>

definition pckWritePack :: "PackWrite \<Rightarrow> PackWriteOp list \<Rightarrow> error + byte list" where
  "pckWritePack this xs =
     (case pckWriteOps this xs of
        Inl e \<Rightarrow> Inl e
      | Inr this1 \<Rightarrow>
          (case pckWriteEnd this1 of Inl e \<Rightarrow> Inl e | Inr this2 \<Rightarrow> Inr (pckWriteResult this2)))"

text \<open>
  A write that \<open>pckWriteDefaultNull\<close> turns into a null: \<open>defaultNull\<close> is set and the value is
  the default (\<open>NULL\<close> for \<open>pckWriteBin\<close> and \<open>pckWritePtr\<close>).
\<close>

fun pckWriteOpElided :: "PackWriteOp \<Rightarrow> bool" where
  "pckWriteOpElided (WriteBin v fid dn) = (dn \<and> v = None)"
| "pckWriteOpElided (WriteBool v fid dn dv) = (dn \<and> v = dv)"
| "pckWriteOpElided (WriteI32 v fid dn dv) = (dn \<and> v = dv)"
| "pckWriteOpElided (WriteI64 v fid dn dv) = (dn \<and> v = dv)"
| "pckWriteOpElided (WritePtr v fid dn) = (dn \<and> v = 0)"
| "pckWriteOpElided (WriteStr v fid dn dv) = (dn \<and> v = dv)"
| "pckWriteOpElided (WriteTime v fid dn dv) = (dn \<and> v = dv)"
| "pckWriteOpElided (WriteU32 v fid dn dv) = (dn \<and> v = dv)"
| "pckWriteOpElided (WriteU64 v fid dn dv) = (dn \<and> v = dv)"
| "pckWriteOpElided _ = False"

text \<open>The ID a write passes to \<open>pckWriteTag\<close>; the ends of containers and \<open>pckWriteNull\<close> pass none.\<close>

fun pckWriteOpId :: "PackWriteOp \<Rightarrow> u32 option" where
  "pckWriteOpId WriteNull = None"
| "pckWriteOpId (WriteArrayBegin fid) = Some fid"
| "pckWriteOpId WriteArrayEnd = None"
| "pckWriteOpId (WriteBin v fid dn) = Some fid"
| "pckWriteOpId (WriteBool v fid dn dv) = Some fid"
| "pckWriteOpId (WriteI32 v fid dn dv) = Some fid"
| "pckWriteOpId (WriteI64 v fid dn dv) = Some fid"
| "pckWriteOpId (WriteObjBegin fid) = Some fid"
| "pckWriteOpId WriteObjEnd = None"
| "pckWriteOpId (WritePtr v fid dn) = Some fid"
| "pckWriteOpId (WriteStr v fid dn dv) = Some fid"
| "pckWriteOpId (WriteTime v fid dn dv) = Some fid"
| "pckWriteOpId (WriteU32 v fid dn dv) = Some fid"
| "pckWriteOpId (WriteU64 v fid dn dv) = Some fid"

text \<open>
  The writes that follow do not take an implicit ID from the nulls counted so far: after
  any further nulls, the next write passes an explicit ID (not 0), or ends the container,
  or there is none.
\<close>

fun pckWriteNextExplicit :: "PackWriteOp list \<Rightarrow> bool" where
  "pckWriteNextExplicit [] = True"
| "pckWriteNextExplicit (x # xs) =
     (if x = WriteNull \<or> pckWriteOpElided x then pckWriteNextExplicit xs
      else (case pckWriteOpId x of None \<Rightarrow> True | Some fid \<Rightarrow> fid \<noteq> 0))"

definition pckWriteNullTotalSet :: "PackWrite \<Rightarrow> u32 \<Rightarrow> PackWrite" where
  "pckWriteNullTotalSet this n = this\<lparr>wTagStackTop := (wTagStackTop this)\<lparr>nullTotal := n\<rparr>\<rparr>"

lemma pckWriteBuffer_top:
  "pckWriteBuffer (w\<lparr>wTagStackTop := t\<rparr>) bs = (pckWriteBuffer w bs)\<lparr>wTagStackTop := t\<rparr>"
  by (simp add: pckWriteBuffer_def Let_def split: option.splits)

lemma pckWriteTag_nullTotal:
  "fid \<noteq> 0 \<Longrightarrow> pckWriteTag (pckWriteNullTotalSet w n) ty fid v = pckWriteTag w ty fid v"
  by (simp add: pckWriteTag_def pckWriteNullTotalSet_def)

lemma pckWriteContainerEnd_nullTotal:
  "pckWriteContainerEnd (pckWriteNullTotalSet w n) t = pckWriteContainerEnd w t"
  by (simp add: pckWriteContainerEnd_def pckWriteNullTotalSet_def pckWriteUInt64Internal_def
      pckWriteBuffer_top Let_def split: list.splits)

lemma pckWriteEnd_nullTotal:
  "map_sum (\<lambda>e. e) pckWriteResult (pckWriteEnd (pckWriteNullTotalSet w n)) =
   map_sum (\<lambda>e. e) pckWriteResult (pckWriteEnd w)"
  by (simp add: pckWriteEnd_def pckWriteNullTotalSet_def pckWriteUInt64Internal_def
      pckWriteBuffer_top pckWriteResult_def Let_def split: option.splits)

lemma pckWriteOp_null:
  "x = WriteNull \<or> pckWriteOpElided x \<Longrightarrow>
     pckWriteOp w x = Inr (pckWriteNullTotalSet w (nullTotal (wTagStackTop w) + 1))"
  by (cases x)
     (auto simp: pckWriteNull_def pckWriteNullTotalSet_def pckWriteDefaultNull_def pckWriteBin_def
        pckWriteBool_def pckWriteI32_def pckWriteI64_def pckWritePtr_def pckWriteStr_def
        pckWriteTime_def pckWriteU32_def pckWriteU64_def strEq_def)

lemma pckWriteNullTotalSet_twice [simp]:
  "pckWriteNullTotalSet (pckWriteNullTotalSet w n) m = pckWriteNullTotalSet w m"
  "nullTotal (wTagStackTop (pckWriteNullTotalSet w n)) = n"
  by (simp_all add: pckWriteNullTotalSet_def)

lemma pckWriteOp_explicit:
  assumes "\<not> (x = WriteNull \<or> pckWriteOpElided x)"
    and "case pckWriteOpId x of None \<Rightarrow> True | Some fid \<Rightarrow> fid \<noteq> 0"
  shows "pckWriteOp (pckWriteNullTotalSet w n) x = pckWriteOp w x"
  using assms
  by (cases x)
     (auto simp: pckWriteDefaultNull_def pckWriteBin_def pckWriteSized_def
        pckWriteBool_def pckWriteI32_def pckWriteI64_def pckWritePtr_def pckWriteStr_def
        pckWriteTime_def pckWriteU32_def pckWriteU64_def strEq_def pckWriteArrayBegin_def
        pckWriteObjBegin_def pckWriteArrayEnd_def pckWriteObjEnd_def
        pckWriteTag_nullTotal pckWriteContainerEnd_nullTotal
        simp flip: pckWriteNullTotalSet_def split: option.splits)

lemma pckWritePack_nullTotal:
  "pckWriteNextExplicit xs \<Longrightarrow> pckWritePack (pckWriteNullTotalSet w n) xs = pckWritePack w xs"
proof (induction xs arbitrary: w n)
  case Nil
  show ?case
    using pckWriteEnd_nullTotal [of w n]
    by (auto simp: pckWritePack_def split: sum.splits)
next
  case (Cons x xs)
  show ?case
  proof (cases "x = WriteNull \<or> pckWriteOpElided x")
    case True
    with Cons.prems have nx: "pckWriteNextExplicit xs" by simp
    have "pckWritePack (pckWriteNullTotalSet w n) (x # xs) =
          pckWritePack (pckWriteNullTotalSet w (n + 1)) xs"
      using pckWriteOp_null [OF True, of "pckWriteNullTotalSet w n"]
      by (simp add: pckWritePack_def)
    also have "\<dots> = pckWritePack w xs" by (rule Cons.IH [OF nx])
    also have "\<dots> = pckWritePack (pckWriteNullTotalSet w (nullTotal (wTagStackTop w) + 1)) xs"
      by (rule Cons.IH [OF nx, symmetric])
    also have "\<dots> = pckWritePack w (x # xs)"
      using pckWriteOp_null [OF True, of w] by (simp add: pckWritePack_def)
    finally show ?thesis .
  next
    case False
    with Cons.prems have "case pckWriteOpId x of None \<Rightarrow> True | Some fid \<Rightarrow> fid \<noteq> 0"
      by simp
    from pckWriteOp_explicit [OF False this, of w n] show ?thesis
      by (simp add: pckWritePack_def)
  qed
qed

lemma pckWriteOps_append:
  "pckWriteOps w (xs @ ys) =
     (case pckWriteOps w xs of Inl e \<Rightarrow> Inl e | Inr w1 \<Rightarrow> pckWriteOps w1 ys)"
  by (induction xs arbitrary: w) (auto split: sum.splits)

text \<open>
  Claim C5, as amended. A write that is elided (\<open>defaultNull\<close> set, the value equal to the
  default) leaves the bytes of the pack as they are without it, provided the writes after
  it do not take an implicit ID from the null it counts: after any further nulls the next
  write passes an explicit ID, or ends the container, or there is none.
\<close>

theorem pckWrite_elision:
  assumes "pckWriteOpElided x" and "pckWriteNextExplicit ys"
  shows "pckWritePack w (xs @ x # ys) = pckWritePack w (xs @ ys)"
proof (cases "pckWriteOps w xs")
  case (Inl e)
  then show ?thesis by (simp add: pckWritePack_def pckWriteOps_append)
next
  case (Inr w1)
  have "pckWritePack w1 (x # ys) = pckWritePack (pckWriteNullTotalSet w1 (nullTotal (wTagStackTop w1) + 1)) ys"
    using pckWriteOp_null [of x w1] assms(1) by (simp add: pckWritePack_def)
  also have "\<dots> = pckWritePack w1 ys" by (rule pckWritePack_nullTotal [OF assms(2)])
  finally show ?thesis
    using Inr by (simp add: pckWritePack_def pckWriteOps_append)
qed


section \<open>Evaluation on concrete packs\<close>

lemmas pckWrite_eval =
  pckWritePack_def pckWriteEnd_def pckWriteResult_def pckWriteNewBuf_def tagStackNew_def
  pckWriteDefaultNull_def pckWriteBin_def pckWriteSized_def pckWriteBool_def pckWriteI32_def
  pckWriteI64_def pckWritePtr_def pckWriteStr_def pckWriteTime_def pckWriteU32_def pckWriteU64_def
  strEq_def pckWriteArrayBegin_def pckWriteObjBegin_def pckWriteArrayEnd_def pckWriteObjEnd_def
  pckWriteContainerEnd_def pckWritePush_def pckWriteNull_def
  pckWriteTag_def pckWriteTagBits_def pckWriteUInt64Internal_def pckWriteBuffer_def
  pckUInt64Bytes_def pckWriteUInt64Loop.simps ptd_def Let_def drop_bit_eq_div
  word_le_nat_alt word_less_nat_alt

theorem pckWrite_elision_witness:
  "pckWriteOpElided (WriteU32 0 1 True 0) \<and> pckWriteNextExplicit [WriteU32 7 2 False 0] \<and>
   pckWritePack (pckWriteNewBuf [] 0) ([] @ WriteU32 0 1 True 0 # [WriteU32 7 2 False 0]) =
     Inr [0xA9, 0x07, 0x00]"
proof -
  have "pckWritePack (pckWriteNewBuf [] 0) ([] @ [WriteU32 7 2 False 0]) = Inr [0xA9, 0x07, 0x00]"
    by (simp add: pckWrite_eval)
  then show ?thesis
    using pckWrite_elision [of "WriteU32 0 1 True 0" "[WriteU32 7 2 False 0]" "pckWriteNewBuf [] 0" "[]"]
    by simp
qed

theorem pckWrite_elision_counterexample:
  "pckWriteOpElided (WriteU32 0 1 True 0) \<and>
   pckWritePack (pckWriteNewBuf [] 0) [WriteU32 0 1 True 0, WriteU32 1 0 False 0] = Inr [0xA5, 0x00] \<and>
   pckWritePack (pckWriteNewBuf [] 0) [WriteU32 1 0 False 0] = Inr [0xA4, 0x00]"
  by (simp add: pckWrite_eval)

lemmas pckRead_eval =
  pckReadNewBuf_def tagStackNew_def pckReadBin_def pckReadBool_def pckReadI32_def pckReadI64_def
  pckReadPtr_def pckReadStr_def pckReadTime_def pckReadU32_def pckReadU64_def pckReadField_def
  pckReadDefaultNull_def pckReadNullInternal_def pckReadNull_def pckReadTag_def
  pckReadTagLoop.simps pckReadTagFill_def pckReadTagSkip_def pckReadTagDone_def pckReadTagNext_def
  pckReadTagId_def pckReadUInt64Internal_def pckReadUInt64Loop.simps PACK_UINT64_SIZE_MAX_def
  pckReadBuffer_def pckReadBytes.simps pckReadPayload_def
  pckReadArrayBegin_def pckReadArrayEnd_def pckReadObjBegin_def pckReadObjEnd_def
  pckReadContainerEnd_def pckReadPush_def packTypeOfOrd_def ptd_def Let_def drop_bit_eq_div
  word_le_nat_alt word_less_nat_alt

text \<open>
  Claim C3 at a failing input. The pack holds the string "a" at ID 1 and the U32 7 at
  ID 2. \<open>pckReadU32\<close> at ID 2 skips the string's tag but not its size and payload, since
  \<open>pckReadTag\<close> looks up \<open>packTypeData[type].size\<close> with the requested type, not the type
  of the field skipped: it parses the size byte as the next tag and fails.
\<close>

theorem pckReadTag_skip_failing_input:
  "pckWritePack (pckWriteNewBuf [] 0) [WriteStr (Some [0x61]) 1 False None, WriteU32 7 2 False 0] =
     Inr [0x88, 0x01, 0x61, 0xA8, 0x07, 0x00] \<and>
   pckReadU32 (pckReadNewBuf [0x88, 0x01, 0x61, 0xA8, 0x07, 0x00]) 2 False 0 =
     Inl (FormatError ''field %u does not exist'' [ArgUInt 2])"
  by (simp add: pckWrite_eval pckRead_eval)


text \<open>
  Claim C9. Writing the U32 value 1 at ID 1 into a frame whose last ID is 0 emits the
  single byte \<open>0xA4\<close>: the ordinal of U32 in the high nibble and the value bit at
  position 2, the bits 3 (more value), 1 (more ID delta) and 0 (ID delta) being clear.
  A reader without lookahead in a frame whose last ID is 0, whose input starts with that
  byte, returns 1 for \<open>pckReadU32\<close> at ID 1 and is left just behind the byte.
\<close>

theorem pckWriteU32_one:
  "(idLast (wTagStackTop w) = 0 \<longrightarrow>
      (\<exists>w'. pckWriteU32 w 1 1 False dv = Inr w' \<and> pckWriteOutput w' = pckWriteOutput w @ [0xA4])) \<and>
   (0xA4 :: byte) = push_bit 4 (of_nat (packTypeOrd pckTypeU32)) OR push_bit 2 1 \<and>
   (pckReadInv r \<and> pckReadStream r = 0xA4 # rest \<and> tagNextId r = 0 \<and> idLast (tagStackTop r) = 0 \<longrightarrow>
      (\<exists>r'. pckReadU32 r 1 False dv' = Inr (1, r') \<and> pckReadStream r' = rest))"
proof -
  have tb: "pckTagBytes pckTypeU32 0 1 = [0xA4]"
    by (simp add: pckTagBytes_def pckWriteTagBits_def ptd_def Let_def drop_bit_eq_div)
  have ok: "pckTagValueOk pckTypeU32 1"
    by (simp add: pckTagValueOk_def ptd_def)
  have w: "\<exists>w'. pckWriteU32 w 1 1 False dv = Inr w' \<and> pckWriteOutput w' = pckWriteOutput w @ [0xA4]"
    if "idLast (wTagStackTop w) = 0"
  proof -
    from that have "(1 :: u32) = 0 \<or> idLast (wTagStackTop w) < 1" by simp
    from pckWriteTag_output [OF this ok] that tb show ?thesis
      by (auto simp: pckWriteU32_def pckWriteDefaultNull_def pckWriteTagIdEff_def)
  qed
  have r: "\<exists>r'. pckReadU32 r 1 False dv' = Inr (1, r') \<and> pckReadStream r' = rest"
    if "pckReadInv r \<and> pckReadStream r = 0xA4 # rest \<and> tagNextId r = 0 \<and> idLast (tagStackTop r) = 0"
  proof -
    from that have s: "pckReadStream r = pckTagBytes pckTypeU32 (1 - idLast (tagStackTop r) - 1) 1 @ rest"
      and lt: "idLast (tagStackTop r) < 1"
      by (simp_all add: tb)
    from that pckReadField_present [OF _ _ s lt ok, of False] show ?thesis
      by (auto simp: pckReadU32_def)
  qed
  from w r show ?thesis by simp
qed

theorem pckWriteU32_one_witness:
  "(\<exists>w'. pckWriteU32 (pckWriteNewBuf [] 0) 1 1 False 0 = Inr w' \<and> pckWriteOutput w' = [0xA4]) \<and>
   (\<exists>r'. pckReadU32 (pckReadNewBuf [0xA4]) 1 False 0 = Inr (1, r') \<and> pckReadStream r' = [])"
  using pckWriteU32_one [of "pckWriteNewBuf [] 0" 0 "pckReadNewBuf [0xA4]" "[]" 0]
  by (simp add: pckWriteNewBuf_def pckWriteOutput_def tagStackNew_def pckReadNewBuf_def
      pckReadInv_def pckReadStream_def)


section \<open>Payloads and values\<close>

lemma pckReadBuffer_bytes:
  assumes "pckReadInv r" and "pckReadStream r = bs @ rest" and "bs \<noteq> []"
  shows "\<exists>k r1. pckReadBuffer r (length bs) = Inr (k, r1) \<and> 1 \<le> k \<and> k \<le> length bs \<and>
           take k (drop (bufferPos r1) (bufferPtr r1)) = take k bs \<and>
           pckReadStream (r1\<lparr>bufferPos := bufferPos r1 + k\<rparr>) = drop k bs @ rest \<and>
           pckReadInv (r1\<lparr>bufferPos := bufferPos r1 + k\<rparr>) \<and> pckReadCtl r1 = pckReadCtl r"
proof (cases "read r")
  case None
  let ?n = "length bs"
  from assms None have s: "drop (bufferPos r) (take (bufferMax r) (bufferPtr r)) = bs @ rest"
    and le: "bufferPos r \<le> bufferMax r" "bufferMax r \<le> length (bufferPtr r)"
    by (simp_all add: pckReadStream_def pckReadInv_def)
  from arg_cong [OF s, of length] le have n: "?n \<le> bufferMax r - bufferPos r"
    by simp
  have "take ?n (drop (bufferPos r) (bufferPtr r)) =
        take ?n (drop (bufferPos r) (take (bufferMax r) (bufferPtr r)))"
    using n le by (simp add: drop_take)
  also have "\<dots> = bs" by (simp add: s)
  finally have tk: "take ?n (drop (bufferPos r) (bufferPtr r)) = take ?n bs" by simp
  have "drop (bufferPos r + ?n) (take (bufferMax r) (bufferPtr r)) = rest"
    using arg_cong [OF s, of "drop ?n"] by (simp add: add.commute)
  with None n le tk assms(3) have
    "pckReadBuffer r ?n = Inr (?n, r) \<and> 1 \<le> ?n \<and> ?n \<le> ?n \<and>
       take ?n (drop (bufferPos r) (bufferPtr r)) = take ?n bs \<and>
       pckReadStream (r\<lparr>bufferPos := bufferPos r + ?n\<rparr>) = drop ?n bs @ rest \<and>
       pckReadInv (r\<lparr>bufferPos := bufferPos r + ?n\<rparr>) \<and> pckReadCtl r = pckReadCtl r"
    by (auto simp: pckReadBuffer_def pckReadStream_def pckReadInv_def Suc_le_eq)
  then show ?thesis by blast
next
  case (Some src)
  let ?n = "length bs"
  from assms Some have s: "src = bs @ rest" and a: "0 < bufferSizeAlloc r"
    and p: "bufferPos r = bufferMax r" "bufferMax r \<le> length (bufferPtr r)"
    by (simp_all add: pckReadStream_def pckReadInv_def)
  from assms(3) have n0: "0 < ?n" by simp
  obtain lim where lim: "(if ?n < bufferSizeAlloc r then ?n else bufferSizeAlloc r) = lim"
    "0 < lim" "lim \<le> ?n"
    using a n0 by auto
  define r1 where "r1 = r\<lparr>read := Some (drop lim src), bufferPtr := take lim src, bufferPos := 0,
                           bufferMax := lim\<rparr>"
  have len: "length (take lim src) = lim" using lim(3) s by simp
  have "pckReadBuffer r ?n =
     (let this' = r\<lparr>read := Some (drop lim src), bufferPtr := take lim src, bufferPos := 0,
                     bufferMax := length (take lim src)\<rparr>;
          remaining' = bufferMax this' - bufferPos this'
      in if remaining' < 1 then Inl (FormatError ''unexpected EOF'' [])
         else Inr (if remaining' < ?n then remaining' else ?n, this'))"
    using Some p n0 unfolding pckReadBuffer_def ioReadSmall_def lim(1) by (simp add: Let_def)
  then have rb: "pckReadBuffer r ?n = Inr (lim, r1)"
    unfolding len using lim(2,3) by (auto simp: Let_def r1_def)
  have tk: "take lim (drop (bufferPos r1) (bufferPtr r1)) = take lim bs"
    using lim(3) s by (simp add: r1_def)
  have st: "pckReadStream (r1\<lparr>bufferPos := bufferPos r1 + lim\<rparr>) = drop lim bs @ rest"
    using lim(3) s by (simp add: r1_def pckReadStream_def)
  have iv: "pckReadInv (r1\<lparr>bufferPos := bufferPos r1 + lim\<rparr>)"
    using a lim(3) s by (simp add: r1_def pckReadInv_def)
  have ct: "pckReadCtl r1 = pckReadCtl r" by (simp add: r1_def pckReadCtl_def)
  from rb lim tk st iv ct show ?thesis
    by (intro exI [of _ lim] exI [of _ r1]) (simp add: Suc_le_eq)
qed

lemma pckReadBytes_decode:
  assumes "pckReadInv r" and "pckReadStream r = bs @ rest"
  shows "\<exists>r1. pckReadBytes r (length bs) acc = Inr (acc @ bs, r1) \<and> pckReadStream r1 = rest \<and>
           pckReadInv r1 \<and> pckReadCtl r1 = pckReadCtl r"
  using assms
proof (induction "length bs" arbitrary: bs r acc rule: less_induct)
  case less
  show ?case
  proof (cases "bs = []")
    case True
    with less.prems show ?thesis by (simp add: pckReadBytes.simps [of r])
  next
    case False
    from pckReadBuffer_bytes [OF less.prems False] obtain k r1 where
      rb: "pckReadBuffer r (length bs) = Inr (k, r1)" "1 \<le> k" "k \<le> length bs"
        "take k (drop (bufferPos r1) (bufferPtr r1)) = take k bs"
        "pckReadStream (r1\<lparr>bufferPos := bufferPos r1 + k\<rparr>) = drop k bs @ rest"
        "pckReadInv (r1\<lparr>bufferPos := bufferPos r1 + k\<rparr>)" "pckReadCtl r1 = pckReadCtl r"
      by blast
    have lt: "length (drop k bs) < length bs" using rb(2) False by simp
    from less.hyps [OF lt rb(6) rb(5), of "acc @ take k bs"] obtain r2 where
      r2: "pckReadBytes (r1\<lparr>bufferPos := bufferPos r1 + k\<rparr>) (length (drop k bs)) (acc @ take k bs) =
             Inr ((acc @ take k bs) @ drop k bs, r2)"
        "pckReadStream r2 = rest" "pckReadInv r2"
        "pckReadCtl r2 = pckReadCtl (r1\<lparr>bufferPos := bufferPos r1 + k\<rparr>)"
      by blast
    have "pckReadBytes r (length bs) acc = Inr (acc @ bs, r2)"
      using False rb(1,4) r2(1) by (simp add: pckReadBytes.simps [of r])
    with r2 rb(7) show ?thesis by simp
  qed
qed

lemma bit_double: "bit (v * 2 :: 'a::len word) n = (0 < n \<and> n < LENGTH('a) \<and> bit v (n - 1))"
  using bit_push_bit_iff [of 1 v n] by (auto simp: push_bit_eq_mult bit_imp_le_length)

lemma sdb31: "signed_drop_bit 31 (v :: 32 word) = (if bit v 31 then - 1 else 0)"
proof (rule bit_word_eqI)
  fix n assume "n < LENGTH(32)"
  then show "bit (signed_drop_bit 31 v) n = bit (if bit v 31 then - 1 else 0 :: 32 word) n"
    by (cases "n = 0") (auto simp: bit_simps)
qed

lemma sdb63: "signed_drop_bit 63 (v :: 64 word) = (if bit v 63 then - 1 else 0)"
proof (rule bit_word_eqI)
  fix n assume "n < LENGTH(64)"
  then show "bit (signed_drop_bit 63 v) n = bit (if bit v 63 then - 1 else 0 :: 64 word) n"
    by (cases "n = 0") (auto simp: bit_simps)
qed

lemma zz_and1: "(v * 2 XOR (if b then - 1 else 0)) AND 1 = (if b then 1 else 0 :: 'a::len word)"
  by (rule bit_word_eqI) (auto simp: bit_simps bit_double)

lemma zz32: "drop_bit 1 (push_bit 1 v XOR signed_drop_bit 31 v) XOR (- ((push_bit 1 v XOR signed_drop_bit 31 v) AND 1)) = (v :: 32 word)"
proof (cases "bit v 31")
  case True
  have "drop_bit 1 (v * 2 XOR - 1) XOR - 1 = v"
  proof (rule bit_word_eqI)
    fix n assume "n < LENGTH(32)"
    with True show "bit (drop_bit 1 (v * 2 XOR - 1) XOR - 1) n = bit v n"
      by (cases "n = 31") (auto simp: bit_simps bit_double)
  qed
  with True show ?thesis
    using zz_and1 [of v True] by (simp add: sdb31)
next
  case False
  have "drop_bit 1 (v * 2) = v"
  proof (rule bit_word_eqI)
    fix n assume "n < LENGTH(32)"
    with False show "bit (drop_bit 1 (v * 2)) n = bit v n"
      by (cases "n = 31") (auto simp: bit_simps bit_double)
  qed
  with False show ?thesis
    using zz_and1 [of v False] by (simp add: sdb31)
qed

lemma zz64: "drop_bit 1 (push_bit 1 v XOR signed_drop_bit 63 v) XOR (- ((push_bit 1 v XOR signed_drop_bit 63 v) AND 1)) = (v :: 64 word)"
proof (cases "bit v 63")
  case True
  have "drop_bit 1 (v * 2 XOR - 1) XOR - 1 = v"
  proof (rule bit_word_eqI)
    fix n assume "n < LENGTH(64)"
    with True show "bit (drop_bit 1 (v * 2 XOR - 1) XOR - 1) n = bit v n"
      by (cases "n = 63") (auto simp: bit_simps bit_double)
  qed
  with True show ?thesis
    using zz_and1 [of v True] by (simp add: sdb63)
next
  case False
  have "drop_bit 1 (v * 2) = v"
  proof (rule bit_word_eqI)
    fix n assume "n < LENGTH(64)"
    with False show "bit (drop_bit 1 (v * 2)) n = bit v n"
      by (cases "n = 63") (auto simp: bit_simps bit_double)
  qed
  with False show ?thesis
    using zz_and1 [of v False] by (simp add: sdb63)
qed


lemma cvtInt32_zigzag [simp]: "cvtInt32FromZigZag (cvtInt32ToZigZag v) = v"
  unfolding cvtInt32FromZigZag_def cvtInt32ToZigZag_def by (rule zz32)

lemma cvtInt64_zigzag [simp]: "cvtInt64FromZigZag (cvtInt64ToZigZag v) = v"
  unfolding cvtInt64FromZigZag_def cvtInt64ToZigZag_def by (rule zz64)

lemma pckUInt64Bytes_0: "pckUInt64Bytes 0 = [0]"
  by (subst pckUInt64Bytes_rec) simp

section \<open>Sequences of writes and the reads that mirror them\<close>

text \<open>The state \<open>pckWriteTag\<close> returns.\<close>

definition pckWriteTagSt :: "PackWrite \<Rightarrow> PackType \<Rightarrow> u32 \<Rightarrow> u64 \<Rightarrow> PackWrite" where
  "pckWriteTagSt w ty fid v = projr (pckWriteTag w ty fid v)"

lemma pckWriteTag_St:
  assumes "idLast (wTagStackTop w) < fid" and "pckTagValueOk ty v"
  shows "pckWriteTag w ty fid v = Inr (pckWriteTagSt w ty fid v)"
    and "pckWriteOutput (pckWriteTagSt w ty fid v) =
           pckWriteOutput w @ pckTagBytes ty (fid - idLast (wTagStackTop w) - 1) v"
    and "wTagStack (pckWriteTagSt w ty fid v) = wTagStack w"
    and "wTagStackTop (pckWriteTagSt w ty fid v) = (wTagStackTop w)\<lparr>idLast := fid, nullTotal := 0\<rparr>"
proof -
  from assms(1) have nz: "fid \<noteq> 0" by auto
  from assms(1) have "fid = 0 \<or> idLast (wTagStackTop w) < fid" by simp
  from pckWriteTag_output [OF this assms(2)] nz
  show "pckWriteTag w ty fid v = Inr (pckWriteTagSt w ty fid v)"
    and "pckWriteOutput (pckWriteTagSt w ty fid v) =
           pckWriteOutput w @ pckTagBytes ty (fid - idLast (wTagStackTop w) - 1) v"
    and "wTagStack (pckWriteTagSt w ty fid v) = wTagStack w"
    and "wTagStackTop (pckWriteTagSt w ty fid v) = (wTagStackTop w)\<lparr>idLast := fid, nullTotal := 0\<rparr>"
    by (auto simp: pckWriteTagSt_def pckWriteTagIdEff_def)
qed

text \<open>
  The type and the value of the tag a write emits: the value of a Bin or Str is whether
  its size is greater than zero.
\<close>

fun pckOpTag :: "PackWriteOp \<Rightarrow> (PackType \<times> u64) option" where
  "pckOpTag WriteNull = None"
| "pckOpTag (WriteArrayBegin fid) = Some (pckTypeArray, 0)"
| "pckOpTag WriteArrayEnd = None"
| "pckOpTag (WriteBin v fid dn) =
     (case v of None \<Rightarrow> None | Some bs \<Rightarrow> Some (pckTypeBin, if length bs > 0 then 1 else 0))"
| "pckOpTag (WriteBool v fid dn dv) = Some (pckTypeBool, if v then 1 else 0)"
| "pckOpTag (WriteI32 v fid dn dv) = Some (pckTypeI32, ucast (cvtInt32ToZigZag v))"
| "pckOpTag (WriteI64 v fid dn dv) = Some (pckTypeI64, cvtInt64ToZigZag v)"
| "pckOpTag (WriteObjBegin fid) = Some (pckTypeObj, 0)"
| "pckOpTag WriteObjEnd = None"
| "pckOpTag (WritePtr v fid dn) = Some (pckTypePtr, v)"
| "pckOpTag (WriteStr v fid dn dv) =
     (case v of None \<Rightarrow> None | Some bs \<Rightarrow> Some (pckTypeStr, if length bs > 0 then 1 else 0))"
| "pckOpTag (WriteTime v fid dn dv) = Some (pckTypeTime, cvtInt64ToZigZag v)"
| "pckOpTag (WriteU32 v fid dn dv) = Some (pckTypeU32, ucast v)"
| "pckOpTag (WriteU64 v fid dn dv) = Some (pckTypeU64, v)"

text \<open>What follows the tag of a Bin or Str that is not empty: its size and its bytes.\<close>

definition pckSizedBytes :: "byte list \<Rightarrow> byte list" where
  "pckSizedBytes bs = (if length bs > 0 then pckUInt64Bytes (of_nat (length bs)) @ bs else [])"

fun pckOpPayload :: "PackWriteOp \<Rightarrow> byte list" where
  "pckOpPayload (WriteBin (Some bs) fid dn) = pckSizedBytes bs"
| "pckOpPayload (WriteStr (Some bs) fid dn dv) = pckSizedBytes bs"
| "pckOpPayload _ = []"

text \<open>The bytes of a write in a frame whose last ID is \<open>l\<close>.\<close>

definition pckOpBytes :: "u32 \<Rightarrow> PackWriteOp \<Rightarrow> byte list" where
  "pckOpBytes l x =
     (if x = WriteArrayEnd \<or> x = WriteObjEnd then [0]
      else (case (pckOpTag x, pckWriteOpId x) of
              (Some (ty, v), Some fid) \<Rightarrow> pckTagBytes ty (fid - l - 1) v @ pckOpPayload x
            | _ \<Rightarrow> []))"

text \<open>
  The frames of a reader or writer, as the type and the last ID of each: the current
  frame and the stack of the frames around it.
\<close>

type_synonym pckFrame = "PackType \<times> u32"

definition pckFrameOf :: "PackTagStack \<Rightarrow> pckFrame" where
  "pckFrameOf f = (frameType f, idLast f)"

fun pckOpFrames :: "pckFrame \<Rightarrow> pckFrame list \<Rightarrow> PackWriteOp \<Rightarrow> pckFrame \<times> pckFrame list" where
  "pckOpFrames (ty, l) fs (WriteArrayBegin fid) = ((pckTypeArray, 0), (ty, fid) # fs)"
| "pckOpFrames (ty, l) fs (WriteObjBegin fid) = ((pckTypeObj, 0), (ty, fid) # fs)"
| "pckOpFrames (ty, l) fs WriteArrayEnd = (case fs of [] \<Rightarrow> ((ty, l), []) | g # gs \<Rightarrow> (g, gs))"
| "pckOpFrames (ty, l) fs WriteObjEnd = (case fs of [] \<Rightarrow> ((ty, l), []) | g # gs \<Rightarrow> (g, gs))"
| "pckOpFrames (ty, l) fs x = (case pckWriteOpId x of None \<Rightarrow> ((ty, l), fs) | Some fid \<Rightarrow> ((ty, fid), fs))"

text \<open>
  A write the round trip covers, in the frame \<open>(ty, l)\<close> inside the frames \<open>fs\<close>: it passes
  an explicit ID greater than the last one and is not elided; a Bin or Str is not \<open>NULL\<close>
  and its size fits 64 bits; a container is ended where one of its type is open, its last
  ID being less than \<open>0xFFFFFFFE\<close>, the ID \<open>pckReadArrayEnd\<close> and \<open>pckReadObjEnd\<close> read up to.
\<close>

fun pckOpOk :: "pckFrame \<Rightarrow> pckFrame list \<Rightarrow> PackWriteOp \<Rightarrow> bool" where
  "pckOpOk (ty, l) fs WriteNull = False"
| "pckOpOk (ty, l) fs WriteArrayEnd = (fs \<noteq> [] \<and> ty = pckTypeArray \<and> l < 0xFFFFFFFE)"
| "pckOpOk (ty, l) fs WriteObjEnd = (fs \<noteq> [] \<and> ty = pckTypeObj \<and> l < 0xFFFFFFFE)"
| "pckOpOk (ty, l) fs (WriteBin v fid dn) =
     (l < fid \<and> (case v of None \<Rightarrow> False | Some bs \<Rightarrow> length bs < 2 ^ 64))"
| "pckOpOk (ty, l) fs (WriteStr v fid dn dv) =
     (l < fid \<and> \<not> pckWriteOpElided (WriteStr v fid dn dv) \<and>
      (case v of None \<Rightarrow> False | Some bs \<Rightarrow> length bs < 2 ^ 64))"
| "pckOpOk (ty, l) fs x =
     (\<not> pckWriteOpElided x \<and> (case pckWriteOpId x of None \<Rightarrow> False | Some fid \<Rightarrow> l < fid))"

fun pckOpsOk :: "pckFrame \<Rightarrow> pckFrame list \<Rightarrow> PackWriteOp list \<Rightarrow> bool" where
  "pckOpsOk f fs [] = (fs = [])"
| "pckOpsOk f fs (x # xs) =
     (pckOpOk f fs x \<and> (case pckOpFrames f fs x of (g, gs) \<Rightarrow> pckOpsOk g gs xs))"

fun pckOpsBytes :: "pckFrame \<Rightarrow> pckFrame list \<Rightarrow> PackWriteOp list \<Rightarrow> byte list" where
  "pckOpsBytes f fs [] = []"
| "pckOpsBytes f fs (x # xs) =
     pckOpBytes (snd f) x @ (case pckOpFrames f fs x of (g, gs) \<Rightarrow> pckOpsBytes g gs xs)"

lemma pckTagValueOk_simps [simp]:
  "pckTagValueOk pckTypeArray 0" "pckTagValueOk pckTypeObj 0"
  "pckTagValueOk pckTypeBin 0" "pckTagValueOk pckTypeBin 1"
  "pckTagValueOk pckTypeStr 0" "pckTagValueOk pckTypeStr 1"
  "pckTagValueOk pckTypeBool 0" "pckTagValueOk pckTypeBool 1"
  "pckTagValueOk pckTypeI32 v" "pckTagValueOk pckTypeI64 v" "pckTagValueOk pckTypePtr v"
  "pckTagValueOk pckTypeTime v" "pckTagValueOk pckTypeU32 v" "pckTagValueOk pckTypeU64 v"
  by (simp_all add: pckTagValueOk_def ptd_def)

lemma pckTagValueOk_if [simp]:
  "pckTagValueOk pckTypeBin (if b then 1 else 0)" "pckTagValueOk pckTypeStr (if b then 1 else 0)"
  "pckTagValueOk pckTypeBool (if b then 1 else 0)"
  by (simp_all add: pckTagValueOk_def ptd_def)

lemma pckWriteOp_bytes:
  assumes "pckOpOk (pckFrameOf (wTagStackTop w)) (map pckFrameOf (wTagStack w)) x"
  shows "\<exists>w'. pckWriteOp w x = Inr w' \<and>
           pckWriteOutput w' = pckWriteOutput w @ pckOpBytes (idLast (wTagStackTop w)) x \<and>
           (pckFrameOf (wTagStackTop w'), map pckFrameOf (wTagStack w')) =
             pckOpFrames (pckFrameOf (wTagStackTop w)) (map pckFrameOf (wTagStack w)) x"
  using assms
  by (cases x)
     (auto simp: pckFrameOf_def pckOpBytes_def pckSizedBytes_def pckWriteTag_St
        pckWriteArrayBegin_def pckWriteObjBegin_def pckWritePush_def tagStackNew_def
        pckWriteArrayEnd_def pckWriteObjEnd_def pckWriteContainerEnd_def
        pckWriteUInt64Internal_output pckUInt64Bytes_0
        pckWriteBin_def pckWriteStr_def pckWriteSized_def pckWriteBuffer_output
        pckWriteDefaultNull_def strEq_def
        pckWriteBool_def pckWriteI32_def pckWriteI64_def pckWritePtr_def pckWriteTime_def
        pckWriteU32_def pckWriteU64_def Let_def
        split: option.splits list.splits)


lemma pckWriteOps_bytes:
  assumes "pckOpsOk (pckFrameOf (wTagStackTop w)) (map pckFrameOf (wTagStack w)) xs"
  shows "\<exists>w'. pckWriteOps w xs = Inr w' \<and>
           pckWriteOutput w' = pckWriteOutput w @
             pckOpsBytes (pckFrameOf (wTagStackTop w)) (map pckFrameOf (wTagStack w)) xs \<and>
           wTagStack w' = []"
  using assms
proof (induction xs arbitrary: w)
  case Nil
  then show ?case by simp
next
  case (Cons x xs)
  from Cons.prems have ok: "pckOpOk (pckFrameOf (wTagStackTop w)) (map pckFrameOf (wTagStack w)) x"
    by simp
  from pckWriteOp_bytes [OF ok] obtain w1 where
    w1: "pckWriteOp w x = Inr w1"
      "pckWriteOutput w1 = pckWriteOutput w @ pckOpBytes (idLast (wTagStackTop w)) x"
      "(pckFrameOf (wTagStackTop w1), map pckFrameOf (wTagStack w1)) =
         pckOpFrames (pckFrameOf (wTagStackTop w)) (map pckFrameOf (wTagStack w)) x"
    by blast
  from Cons.prems w1(3)
  have "pckOpsOk (pckFrameOf (wTagStackTop w1)) (map pckFrameOf (wTagStack w1)) xs"
    by (auto split: prod.splits)
  from Cons.IH [OF this] obtain w' where
    w': "pckWriteOps w1 xs = Inr w'"
      "pckWriteOutput w' = pckWriteOutput w1 @
         pckOpsBytes (pckFrameOf (wTagStackTop w1)) (map pckFrameOf (wTagStack w1)) xs"
      "wTagStack w' = []"
    by blast
  have "snd (pckFrameOf (wTagStackTop w)) = idLast (wTagStackTop w)"
    by (simp add: pckFrameOf_def)
  with w1 w' show ?case
    by (auto split: prod.splits)
qed

text \<open>A call of the reader's interface: \<open>param.id\<close>, \<open>param.defaultNull\<close>, \<open>param.defaultValue\<close>.\<close>

datatype PackReadOp =
    ReadNull u32
  | ReadArrayBegin u32
  | ReadArrayEnd
  | ReadBin u32 bool
  | ReadBool u32 bool bool
  | ReadI32 u32 bool "32 word"
  | ReadI64 u32 bool "64 word"
  | ReadObjBegin u32
  | ReadObjEnd
  | ReadPtr u32 bool
  | ReadStr u32 bool "byte list option"
  | ReadTime u32 bool "64 word"
  | ReadU32 u32 bool u32
  | ReadU64 u32 bool u64

text \<open>What a call returns; \<open>ValVoid\<close> for the calls that return nothing.\<close>

datatype PackValue =
    ValVoid
  | ValBin "byte list option"
  | ValBool bool
  | ValI32 "32 word"
  | ValI64 "64 word"
  | ValPtr u64
  | ValStr "byte list option"
  | ValTime "64 word"
  | ValU32 u32
  | ValU64 u64

definition pckRet :: "('a \<Rightarrow> PackValue) \<Rightarrow> error + ('a \<times> PackRead) \<Rightarrow> error + (PackValue \<times> PackRead)" where
  "pckRet c res = (case res of Inl e \<Rightarrow> Inl e | Inr (v, this1) \<Rightarrow> Inr (c v, this1))"

definition pckRetVoid :: "error + PackRead \<Rightarrow> error + (PackValue \<times> PackRead)" where
  "pckRetVoid res = (case res of Inl e \<Rightarrow> Inl e | Inr this1 \<Rightarrow> Inr (ValVoid, this1))"

fun pckReadOp :: "PackRead \<Rightarrow> PackReadOp \<Rightarrow> error + (PackValue \<times> PackRead)" where
  "pckReadOp this (ReadNull fid) = pckRet ValBool (pckReadNull this fid)"
| "pckReadOp this (ReadArrayBegin fid) = pckRetVoid (pckReadArrayBegin this fid)"
| "pckReadOp this ReadArrayEnd = pckRetVoid (pckReadArrayEnd this)"
| "pckReadOp this (ReadBin fid dn) = pckRet ValBin (pckReadBin this fid dn)"
| "pckReadOp this (ReadBool fid dn dv) = pckRet ValBool (pckReadBool this fid dn dv)"
| "pckReadOp this (ReadI32 fid dn dv) = pckRet ValI32 (pckReadI32 this fid dn dv)"
| "pckReadOp this (ReadI64 fid dn dv) = pckRet ValI64 (pckReadI64 this fid dn dv)"
| "pckReadOp this (ReadObjBegin fid) = pckRetVoid (pckReadObjBegin this fid)"
| "pckReadOp this ReadObjEnd = pckRetVoid (pckReadObjEnd this)"
| "pckReadOp this (ReadPtr fid dn) = pckRet ValPtr (pckReadPtr this fid dn)"
| "pckReadOp this (ReadStr fid dn dv) = pckRet ValStr (pckReadStr this fid dn dv)"
| "pckReadOp this (ReadTime fid dn dv) = pckRet ValTime (pckReadTime this fid dn dv)"
| "pckReadOp this (ReadU32 fid dn dv) = pckRet ValU32 (pckReadU32 this fid dn dv)"
| "pckReadOp this (ReadU64 fid dn dv) = pckRet ValU64 (pckReadU64 this fid dn dv)"

fun pckReadOps :: "PackRead \<Rightarrow> PackReadOp list \<Rightarrow> error + (PackValue list \<times> PackRead)" where
  "pckReadOps this [] = Inr ([], this)"
| "pckReadOps this (x # xs) =
     (case pckReadOp this x of
        Inl e \<Rightarrow> Inl e
      | Inr (v, this1) \<Rightarrow>
          (case pckReadOps this1 xs of Inl e \<Rightarrow> Inl e | Inr (vs, this2) \<Rightarrow> Inr (v # vs, this2)))"

text \<open>
  The read that mirrors a write (same type, ID, \<open>defaultNull\<close> and \<open>defaultValue\<close>) and the
  value the write was given.
\<close>

fun pckReadOpOf :: "PackWriteOp \<Rightarrow> PackReadOp" where
  "pckReadOpOf WriteNull = ReadNull 0"
| "pckReadOpOf (WriteArrayBegin fid) = ReadArrayBegin fid"
| "pckReadOpOf WriteArrayEnd = ReadArrayEnd"
| "pckReadOpOf (WriteBin v fid dn) = ReadBin fid dn"
| "pckReadOpOf (WriteBool v fid dn dv) = ReadBool fid dn dv"
| "pckReadOpOf (WriteI32 v fid dn dv) = ReadI32 fid dn dv"
| "pckReadOpOf (WriteI64 v fid dn dv) = ReadI64 fid dn dv"
| "pckReadOpOf (WriteObjBegin fid) = ReadObjBegin fid"
| "pckReadOpOf WriteObjEnd = ReadObjEnd"
| "pckReadOpOf (WritePtr v fid dn) = ReadPtr fid dn"
| "pckReadOpOf (WriteStr v fid dn dv) = ReadStr fid dn dv"
| "pckReadOpOf (WriteTime v fid dn dv) = ReadTime fid dn dv"
| "pckReadOpOf (WriteU32 v fid dn dv) = ReadU32 fid dn dv"
| "pckReadOpOf (WriteU64 v fid dn dv) = ReadU64 fid dn dv"

fun pckValueOf :: "PackWriteOp \<Rightarrow> PackValue" where
  "pckValueOf WriteNull = ValBool True"
| "pckValueOf (WriteArrayBegin fid) = ValVoid"
| "pckValueOf WriteArrayEnd = ValVoid"
| "pckValueOf (WriteBin v fid dn) = ValBin v"
| "pckValueOf (WriteBool v fid dn dv) = ValBool v"
| "pckValueOf (WriteI32 v fid dn dv) = ValI32 v"
| "pckValueOf (WriteI64 v fid dn dv) = ValI64 v"
| "pckValueOf (WriteObjBegin fid) = ValVoid"
| "pckValueOf WriteObjEnd = ValVoid"
| "pckValueOf (WritePtr v fid dn) = ValPtr v"
| "pckValueOf (WriteStr v fid dn dv) = ValStr v"
| "pckValueOf (WriteTime v fid dn dv) = ValTime v"
| "pckValueOf (WriteU32 v fid dn dv) = ValU32 v"
| "pckValueOf (WriteU64 v fid dn dv) = ValU64 v"

lemma pckReadTag_present:
  assumes inv: "pckReadInv r" and la: "tagNextId r = 0"
    and str: "pckReadStream r = pckTagBytes ty (fid - idLast (tagStackTop r) - 1) v @ rest"
    and lt: "idLast (tagStackTop r) < fid" and ok: "pckTagValueOk ty v" and ty: "ty \<noteq> pckTypeUnknown"
  shows "\<exists>r1. pckReadTag r fid ty False = Inr (fid, v, r1) \<and> pckReadStream r1 = rest \<and> pckReadInv r1 \<and>
           tagNextId r1 = 0 \<and> tagStack r1 = tagStack r \<and>
           tagStackTop r1 = (tagStackTop r)\<lparr>idLast := fid\<rparr>"
proof -
  from pckReadTagFill_decode [OF inv la str ok ty] obtain r1 where
    r1: "pckReadTagFill r = Inr r1" "pckReadStream r1 = rest" "pckReadInv r1"
      "pckReadCtl r1 = (pckReadCtl r)\<lparr>tagNextId := fid - idLast (tagStackTop r) - 1 + (idLast (tagStackTop r) + 1),
                                          tagNextType := ty, tagNextValue := v\<rparr>"
    by blast
  have c: "pckReadCtl r1 = (pckReadCtl r)\<lparr>tagNextId := fid, tagNextType := ty, tagNextValue := v\<rparr>"
    using r1(4) by simp
  have f: "tagNextId r1 = fid" "tagNextType r1 = ty" "tagNextValue r1 = v" "tagStackTop r1 = tagStackTop r"
    "tagStack r1 = tagStack r"
    using arg_cong [OF c, of tagNextId] arg_cong [OF c, of tagNextType]
      arg_cong [OF c, of tagNextValue] arg_cong [OF c, of tagStackTop] arg_cong [OF c, of tagStack]
    by simp_all
  from lt have nz: "fid \<noteq> 0" by auto
  from lt have nle: "\<not> fid \<le> idLast (tagStackTop r)" by simp
  have "pckReadTag r fid ty False = Inr (fid, v, pckReadTagDone r1)"
    using r1(1) f nz nle ty
    by (simp add: pckReadTag_def pckReadTagLoop.simps [of r] pckReadTagDone_def)
  with r1(2,3) f show ?thesis
    by (simp add: pckReadTagDone_def)
qed

lemma pckReadField_present_frames:
  assumes inv: "pckReadInv r" and la: "tagNextId r = 0"
    and str: "pckReadStream r = pckTagBytes ty (fid - idLast (tagStackTop r) - 1) v @ rest"
    and lt: "idLast (tagStackTop r) < fid" and ok: "pckTagValueOk ty v" and ty: "ty \<noteq> pckTypeUnknown"
  shows "\<exists>r1. pckReadField r fid dn ty = Inr (Some v, r1) \<and> pckReadStream r1 = rest \<and> pckReadInv r1 \<and>
           tagNextId r1 = 0 \<and> tagStack r1 = tagStack r \<and>
           tagStackTop r1 = (tagStackTop r)\<lparr>idLast := fid\<rparr>"
proof -
  from pckReadField_present [OF assms, of dn] obtain r1 where
    r1: "pckReadField r fid dn ty = Inr (Some v, r1)" "pckReadStream r1 = rest" "pckReadInv r1"
      "pckReadCtl r1 = (pckReadCtl r)\<lparr>tagNextId := 0, tagNextType := ty, tagNextValue := v,
              tagStackTop := (tagStackTop r)\<lparr>idLast := fid\<rparr>\<rparr>"
    by blast
  from arg_cong [OF r1(4), of tagNextId] arg_cong [OF r1(4), of tagStack]
    arg_cong [OF r1(4), of tagStackTop] r1(1-3)
  show ?thesis by simp
qed

lemma pckReadPayload_decode:
  assumes "pckReadInv r" and "pckReadStream r = pckSizedBytes bs @ rest" and "length bs < 2 ^ 64"
  shows "\<exists>r1. pckReadPayload r (if length bs > 0 then 1 else 0) = Inr (bs, r1) \<and>
           pckReadStream r1 = rest \<and> pckReadInv r1 \<and> pckReadCtl r1 = pckReadCtl r"
proof (cases "length bs > 0")
  case False
  with assms show ?thesis by (simp add: pckReadPayload_def pckSizedBytes_def)
next
  case True
  with assms(2) have "pckReadStream r = pckUInt64Bytes (of_nat (length bs)) @ (bs @ rest)"
    by (simp add: pckSizedBytes_def)
  from pckReadUInt64Internal_decode [OF assms(1) this] obtain r1 where
    r1: "pckReadUInt64Internal r = Inr (of_nat (length bs), r1)" "pckReadStream r1 = bs @ rest"
      "pckReadInv r1" "pckReadCtl r1 = pckReadCtl r"
    by blast
  have u: "unat (of_nat (length bs) :: u64) = length bs"
    using assms(3) by (simp add: unat_of_nat)
  from pckReadBytes_decode [OF r1(3) r1(2), of "[]"] obtain r2 where
    "pckReadBytes r1 (length bs) [] = Inr (bs, r2)" "pckReadStream r2 = rest" "pckReadInv r2"
    "pckReadCtl r2 = pckReadCtl r1"
    by auto
  with True r1 u show ?thesis
    by (simp add: pckReadPayload_def)
qed

lemma pckReadTagNext_terminator:
  assumes "pckReadInv r" and "pckReadStream r = 0 # rest"
  shows "\<exists>r1. pckReadTagNext r = Inr (False, r1) \<and> pckReadStream r1 = rest \<and> pckReadInv r1 \<and>
           pckReadCtl r1 = (pckReadCtl r)\<lparr>tagNextId := 0xFFFFFFFF\<rparr>"
proof -
  from pckReadBuffer_byte [OF assms] obtain n r1 where
    "pckReadBuffer r 1 = Inr (n, r1)" "bufferPtr r1 ! bufferPos r1 = 0"
    "pckReadStream (r1\<lparr>bufferPos := bufferPos r1 + 1\<rparr>) = rest"
    "pckReadInv (r1\<lparr>bufferPos := bufferPos r1 + 1\<rparr>)" "pckReadCtl r1 = pckReadCtl r"
    by blast
  then show ?thesis
    by (simp add: pckReadTagNext_def Let_def)
qed

lemma pckReadContainerEnd_decode:
  assumes "pckReadInv r" and "tagNextId r = 0" and "pckReadStream r = 0 # rest"
    and "idLast (tagStackTop r) < 0xFFFFFFFE" and "tagStack r = t # ts"
  shows "\<exists>r1. pckReadContainerEnd r = Inr r1 \<and> pckReadStream r1 = rest \<and> pckReadInv r1 \<and>
           tagNextId r1 = 0 \<and> tagStack r1 = ts \<and> tagStackTop r1 = t"
proof -
  from pckReadTagNext_terminator [OF assms(1,3)] obtain r1 where
    r1: "pckReadTagNext r = Inr (False, r1)" "pckReadStream r1 = rest" "pckReadInv r1"
      "pckReadCtl r1 = (pckReadCtl r)\<lparr>tagNextId := 0xFFFFFFFF\<rparr>"
    by blast
  have f: "tagNextId r1 = 0xFFFFFFFF" "tagStack r1 = tagStack r"
    using arg_cong [OF r1(4), of tagNextId] arg_cong [OF r1(4), of tagStack] by simp_all
  from assms(4) have nle: "\<not> (0xFFFFFFFE :: u32) \<le> idLast (tagStackTop r)" by simp
  have "pckReadTag r 0xFFFFFFFE pckTypeUnknown True = Inr (0xFFFFFFFE, tagNextValue r1, r1)"
    using r1(1) f assms(2) nle
    by (simp add: pckReadTag_def pckReadTagLoop.simps [of r] pckReadTagFill_def)
  with r1(2,3) f assms(5) show ?thesis
    by (simp add: pckReadContainerEnd_def)
qed

lemma pckReadOp_bytes:
  assumes inv: "pckReadInv r" and la: "tagNextId r = 0"
    and ok: "pckOpOk (pckFrameOf (tagStackTop r)) (map pckFrameOf (tagStack r)) x"
    and str: "pckReadStream r = pckOpBytes (idLast (tagStackTop r)) x @ rest"
  shows "\<exists>r'. pckReadOp r (pckReadOpOf x) = Inr (pckValueOf x, r') \<and> pckReadStream r' = rest \<and>
           pckReadInv r' \<and> tagNextId r' = 0 \<and>
           (pckFrameOf (tagStackTop r'), map pckFrameOf (tagStack r')) =
             pckOpFrames (pckFrameOf (tagStackTop r)) (map pckFrameOf (tagStack r)) x"
proof (cases x)
  case WriteNull
  with ok show ?thesis by (simp add: pckFrameOf_def)
next
  case (WriteArrayBegin fid)
  with ok str have lt: "idLast (tagStackTop r) < fid"
    and s: "pckReadStream r = pckTagBytes pckTypeArray (fid - idLast (tagStackTop r) - 1) 0 @ rest"
    by (simp_all add: pckFrameOf_def pckOpBytes_def)
  from pckReadTag_present [OF inv la s lt] WriteArrayBegin show ?thesis
    by (auto simp: pckReadArrayBegin_def pckRetVoid_def pckFrameOf_def pckReadPush_def tagStackNew_def)
next
  case WriteArrayEnd
  with ok str have s: "pckReadStream r = 0 # rest" and l: "idLast (tagStackTop r) < 0xFFFFFFFE"
    and t: "frameType (tagStackTop r) = pckTypeArray"
    by (simp_all add: pckFrameOf_def pckOpBytes_def)
  from WriteArrayEnd ok obtain t ts where ts: "tagStack r = t # ts"
    by (cases "tagStack r") (simp_all add: pckFrameOf_def)
  from pckReadContainerEnd_decode [OF inv la s l ts] WriteArrayEnd t ts show ?thesis
    by (auto simp: pckReadArrayEnd_def pckRetVoid_def pckFrameOf_def)
next
  case (WriteBin v fid dn)
  with ok obtain bs where v: "v = Some bs" and len: "length bs < 2 ^ 64"
    by (auto simp: pckFrameOf_def split: option.splits)
  from WriteBin v ok str have lt: "idLast (tagStackTop r) < fid"
    and s: "pckReadStream r = pckTagBytes pckTypeBin (fid - idLast (tagStackTop r) - 1)
               (if length bs > 0 then 1 else 0) @ (pckSizedBytes bs @ rest)"
    by (simp_all add: pckFrameOf_def pckOpBytes_def)
  from pckReadField_present_frames [OF inv la s lt, of dn] obtain r1 where
    r1: "pckReadField r fid dn pckTypeBin = Inr (Some (if length bs > 0 then 1 else 0), r1)"
      "pckReadStream r1 = pckSizedBytes bs @ rest" "pckReadInv r1" "tagNextId r1 = 0"
      "tagStack r1 = tagStack r" "tagStackTop r1 = (tagStackTop r)\<lparr>idLast := fid\<rparr>"
    by (auto split: if_splits)
  from pckReadPayload_decode [OF r1(3) r1(2) len] obtain r2 where
    r2: "pckReadPayload r1 (if length bs > 0 then 1 else 0) = Inr (bs, r2)"
      "pckReadStream r2 = rest" "pckReadInv r2" "pckReadCtl r2 = pckReadCtl r1"
    by blast
  from pckReadCtl_eqD [OF r2(4)] r1 r2 WriteBin v show ?thesis
    by (simp add: pckReadBin_def pckRet_def pckFrameOf_def)
next
  case (WriteBool v fid dn dv)
  with ok str have lt: "idLast (tagStackTop r) < fid"
    and s: "pckReadStream r = pckTagBytes pckTypeBool (fid - idLast (tagStackTop r) - 1) (if v then 1 else 0) @ rest"
    by (simp_all add: pckFrameOf_def pckOpBytes_def)
  from pckReadField_present_frames [OF inv la s lt, of dn] WriteBool show ?thesis
    by (auto simp: pckReadBool_def pckRet_def pckFrameOf_def )
next
  case (WriteI32 v fid dn dv)
  with ok str have lt: "idLast (tagStackTop r) < fid"
    and s: "pckReadStream r = pckTagBytes pckTypeI32 (fid - idLast (tagStackTop r) - 1) (ucast (cvtInt32ToZigZag v)) @ rest"
    by (simp_all add: pckFrameOf_def pckOpBytes_def)
  from pckReadField_present_frames [OF inv la s lt, of dn] WriteI32 show ?thesis
    by (auto simp: pckReadI32_def pckRet_def pckFrameOf_def ucast_u32_u64_id)
next
  case (WriteI64 v fid dn dv)
  with ok str have lt: "idLast (tagStackTop r) < fid"
    and s: "pckReadStream r = pckTagBytes pckTypeI64 (fid - idLast (tagStackTop r) - 1) (cvtInt64ToZigZag v) @ rest"
    by (simp_all add: pckFrameOf_def pckOpBytes_def)
  from pckReadField_present_frames [OF inv la s lt, of dn] WriteI64 show ?thesis
    by (auto simp: pckReadI64_def pckRet_def pckFrameOf_def )
next
  case (WriteObjBegin fid)
  with ok str have lt: "idLast (tagStackTop r) < fid"
    and s: "pckReadStream r = pckTagBytes pckTypeObj (fid - idLast (tagStackTop r) - 1) 0 @ rest"
    by (simp_all add: pckFrameOf_def pckOpBytes_def)
  from pckReadTag_present [OF inv la s lt] WriteObjBegin show ?thesis
    by (auto simp: pckReadObjBegin_def pckRetVoid_def pckFrameOf_def pckReadPush_def tagStackNew_def)
next
  case WriteObjEnd
  with ok str have s: "pckReadStream r = 0 # rest" and l: "idLast (tagStackTop r) < 0xFFFFFFFE"
    and t: "frameType (tagStackTop r) = pckTypeObj"
    by (simp_all add: pckFrameOf_def pckOpBytes_def)
  from WriteObjEnd ok obtain t ts where ts: "tagStack r = t # ts"
    by (cases "tagStack r") (simp_all add: pckFrameOf_def)
  from pckReadContainerEnd_decode [OF inv la s l ts] WriteObjEnd t ts show ?thesis
    by (auto simp: pckReadObjEnd_def pckRetVoid_def pckFrameOf_def)
next
  case (WritePtr v fid dn)
  with ok str have lt: "idLast (tagStackTop r) < fid"
    and s: "pckReadStream r = pckTagBytes pckTypePtr (fid - idLast (tagStackTop r) - 1) (v) @ rest"
    by (simp_all add: pckFrameOf_def pckOpBytes_def)
  from pckReadField_present_frames [OF inv la s lt, of dn] WritePtr show ?thesis
    by (auto simp: pckReadPtr_def pckRet_def pckFrameOf_def )
next
  case (WriteStr v fid dn dv)
  with ok obtain bs where v: "v = Some bs" and len: "length bs < 2 ^ 64"
    by (auto simp: pckFrameOf_def split: option.splits)
  from WriteStr v ok str have lt: "idLast (tagStackTop r) < fid"
    and s: "pckReadStream r = pckTagBytes pckTypeStr (fid - idLast (tagStackTop r) - 1)
               (if length bs > 0 then 1 else 0) @ (pckSizedBytes bs @ rest)"
    by (simp_all add: pckFrameOf_def pckOpBytes_def)
  from pckReadField_present_frames [OF inv la s lt, of dn] obtain r1 where
    r1: "pckReadField r fid dn pckTypeStr = Inr (Some (if length bs > 0 then 1 else 0), r1)"
      "pckReadStream r1 = pckSizedBytes bs @ rest" "pckReadInv r1" "tagNextId r1 = 0"
      "tagStack r1 = tagStack r" "tagStackTop r1 = (tagStackTop r)\<lparr>idLast := fid\<rparr>"
    by (auto split: if_splits)
  from pckReadPayload_decode [OF r1(3) r1(2) len] obtain r2 where
    r2: "pckReadPayload r1 (if length bs > 0 then 1 else 0) = Inr (bs, r2)"
      "pckReadStream r2 = rest" "pckReadInv r2" "pckReadCtl r2 = pckReadCtl r1"
    by blast
  from pckReadCtl_eqD [OF r2(4)] r1 r2 WriteStr v show ?thesis
    by (simp add: pckReadStr_def pckRet_def pckFrameOf_def)
next
  case (WriteTime v fid dn dv)
  with ok str have lt: "idLast (tagStackTop r) < fid"
    and s: "pckReadStream r = pckTagBytes pckTypeTime (fid - idLast (tagStackTop r) - 1) (cvtInt64ToZigZag v) @ rest"
    by (simp_all add: pckFrameOf_def pckOpBytes_def)
  from pckReadField_present_frames [OF inv la s lt, of dn] WriteTime show ?thesis
    by (auto simp: pckReadTime_def pckRet_def pckFrameOf_def )
next
  case (WriteU32 v fid dn dv)
  with ok str have lt: "idLast (tagStackTop r) < fid"
    and s: "pckReadStream r = pckTagBytes pckTypeU32 (fid - idLast (tagStackTop r) - 1) (ucast v) @ rest"
    by (simp_all add: pckFrameOf_def pckOpBytes_def)
  from pckReadField_present_frames [OF inv la s lt, of dn] WriteU32 show ?thesis
    by (auto simp: pckReadU32_def pckRet_def pckFrameOf_def ucast_u32_u64_id)
next
  case (WriteU64 v fid dn dv)
  with ok str have lt: "idLast (tagStackTop r) < fid"
    and s: "pckReadStream r = pckTagBytes pckTypeU64 (fid - idLast (tagStackTop r) - 1) (v) @ rest"
    by (simp_all add: pckFrameOf_def pckOpBytes_def)
  from pckReadField_present_frames [OF inv la s lt, of dn] WriteU64 show ?thesis
    by (auto simp: pckReadU64_def pckRet_def pckFrameOf_def )
qed

lemma pckReadOps_bytes:
  assumes "pckReadInv r" and "tagNextId r = 0"
    and "pckOpsOk (pckFrameOf (tagStackTop r)) (map pckFrameOf (tagStack r)) xs"
    and "pckReadStream r =
           pckOpsBytes (pckFrameOf (tagStackTop r)) (map pckFrameOf (tagStack r)) xs @ rest"
  shows "\<exists>r'. pckReadOps r (map pckReadOpOf xs) = Inr (map pckValueOf xs, r') \<and>
           pckReadStream r' = rest \<and> pckReadInv r' \<and> tagNextId r' = 0 \<and> tagStack r' = []"
  using assms
proof (induction xs arbitrary: r)
  case Nil
  then show ?case by simp
next
  case (Cons x xs)
  obtain g gs where g: "pckOpFrames (pckFrameOf (tagStackTop r)) (map pckFrameOf (tagStack r)) x = (g, gs)"
    by (cases "pckOpFrames (pckFrameOf (tagStackTop r)) (map pckFrameOf (tagStack r)) x")
  from Cons.prems(3) g have ok: "pckOpOk (pckFrameOf (tagStackTop r)) (map pckFrameOf (tagStack r)) x"
    and oks: "pckOpsOk g gs xs"
    by simp_all
  have l: "snd (pckFrameOf (tagStackTop r)) = idLast (tagStackTop r)"
    by (simp add: pckFrameOf_def)
  from Cons.prems(4) g l
  have s: "pckReadStream r = pckOpBytes (idLast (tagStackTop r)) x @ (pckOpsBytes g gs xs @ rest)"
    by simp
  from pckReadOp_bytes [OF Cons.prems(1,2) ok s] g obtain r1 where
    r1: "pckReadOp r (pckReadOpOf x) = Inr (pckValueOf x, r1)"
      "pckReadStream r1 = pckOpsBytes g gs xs @ rest" "pckReadInv r1" "tagNextId r1 = 0"
      "pckFrameOf (tagStackTop r1) = g" "map pckFrameOf (tagStack r1) = gs"
    by auto
  from Cons.IH [OF r1(3,4)] oks r1(2,5,6) obtain r' where
    "pckReadOps r1 (map pckReadOpOf xs) = Inr (map pckValueOf xs, r')"
    "pckReadStream r' = rest" "pckReadInv r'" "tagNextId r' = 0" "tagStack r' = []"
    by auto
  with r1(1) show ?case by simp
qed

lemma pckWriteEnd_result:
  assumes "wTagStack w = []"
  shows "\<exists>w'. pckWriteEnd w = Inr w' \<and> pckWriteResult w' = pckWriteOutput w @ [0]"
  using assms pckWriteUInt64Internal_output [of w 0]
  by (auto simp: pckWriteEnd_def pckWriteResult_def pckWriteOutput_def pckUInt64Bytes_0 Let_def
      split: option.splits)

text \<open>
  Claim C1, as amended. A sequence of writes with explicit strictly ascending IDs in each
  frame, none of them elided, every container that is begun ended in turn with a last ID
  less than \<open>0xFFFFFFFE\<close> (\<open>pckOpsOk\<close>), given to a new writer and finished by \<open>pckWriteEnd\<close>,
  produces a pack; a new reader on its bytes, given the reads that mirror the writes
  (same type, ID and default), returns the values that were written. The writer and the
  reader may use a buffer or an I/O sink and source.
\<close>

theorem pckWrite_pckRead_roundtrip:
  assumes "pckOpsOk (pckTypeObj, 0) [] xs"
    and "wTagStackTop w = tagStackNew pckTypeObj" and "wTagStack w = []" and "pckWriteOutput w = []"
    and "pckReadInv r" and "tagNextId r = 0"
    and "tagStackTop r = tagStackNew pckTypeObj" and "tagStack r = []"
  shows "\<exists>bytes. pckWritePack w xs = Inr bytes \<and>
           (pckReadStream r = bytes \<longrightarrow>
              (\<exists>r'. pckReadOps r (map pckReadOpOf xs) = Inr (map pckValueOf xs, r') \<and>
                    pckReadStream r' = [0]))"
proof -
  have fw: "pckFrameOf (wTagStackTop w) = (pckTypeObj, 0)" "map pckFrameOf (wTagStack w) = []"
    using assms(2,3) by (simp_all add: pckFrameOf_def tagStackNew_def)
  have fr: "pckFrameOf (tagStackTop r) = (pckTypeObj, 0)" "map pckFrameOf (tagStack r) = []"
    using assms(7,8) by (simp_all add: pckFrameOf_def tagStackNew_def)
  from pckWriteOps_bytes [of w xs] assms(1,4) fw obtain w1 where
    w1: "pckWriteOps w xs = Inr w1" "pckWriteOutput w1 = pckOpsBytes (pckTypeObj, 0) [] xs"
      "wTagStack w1 = []"
    by auto
  from pckWriteEnd_result [OF w1(3)] w1(2) obtain w2 where
    w2: "pckWriteEnd w1 = Inr w2" "pckWriteResult w2 = pckOpsBytes (pckTypeObj, 0) [] xs @ [0]"
    by auto
  have p: "pckWritePack w xs = Inr (pckOpsBytes (pckTypeObj, 0) [] xs @ [0])"
    using w1(1) w2 by (simp add: pckWritePack_def)
  have "\<exists>r'. pckReadOps r (map pckReadOpOf xs) = Inr (map pckValueOf xs, r') \<and> pckReadStream r' = [0]"
    if "pckReadStream r = pckOpsBytes (pckTypeObj, 0) [] xs @ [0]"
    using pckReadOps_bytes [OF assms(5,6), of xs "[0]"] assms(1) fr that by auto
  with p show ?thesis by simp
qed


lemmas pckReadOps_eval = pckRead_eval pckRet_def pckRetVoid_def

theorem pckRoundtrip_counterexample:
  "pckWritePack (pckWriteNewBuf [] 0) [WriteArrayBegin 1, WriteU32 5 0xFFFFFFFE False 0, WriteArrayEnd] =
     Inr [0x10, 0xAD, 0xFF, 0xFF, 0xFF, 0xFF, 0x03, 0x05, 0x00, 0x00] \<and>
   pckReadOps (pckReadNewBuf [0x10, 0xAD, 0xFF, 0xFF, 0xFF, 0xFF, 0x03, 0x05, 0x00, 0x00])
     (map pckReadOpOf [WriteArrayBegin 1, WriteU32 5 0xFFFFFFFE False 0, WriteArrayEnd]) =
     Inl (FormatError ''field %u was already read'' [ArgUInt 0xFFFFFFFE])"
  by (simp add: pckWrite_eval pckReadOps_eval)

theorem pckWrite_pckRead_roundtrip_witness:
  "pckOpsOk (pckTypeObj, 0) []
     [WriteArrayBegin 1, WriteStr (Some [0x61]) 1 False None, WriteStr (Some [0x62]) 2 False None,
      WriteArrayEnd, WriteBool True 2 False False] \<and>
   pckWritePack (pckWriteNewBuf [] 0)
     [WriteArrayBegin 1, WriteStr (Some [0x61]) 1 False None, WriteStr (Some [0x62]) 2 False None,
      WriteArrayEnd, WriteBool True 2 False False] =
     Inr [0x10, 0x88, 0x01, 0x61, 0x88, 0x01, 0x62, 0x00, 0x38, 0x00] \<and>
   (\<exists>r'. pckReadOps (pckReadNewBuf [0x10, 0x88, 0x01, 0x61, 0x88, 0x01, 0x62, 0x00, 0x38, 0x00])
           [ReadArrayBegin 1, ReadStr 1 False None, ReadStr 2 False None, ReadArrayEnd,
            ReadBool 2 False False] =
         Inr ([ValVoid, ValStr (Some [0x61]), ValStr (Some [0x62]), ValVoid, ValBool True], r'))"
proof -
  let ?xs = "[WriteArrayBegin 1, WriteStr (Some [0x61]) 1 False None, WriteStr (Some [0x62]) 2 False None,
      WriteArrayEnd, WriteBool True 2 False False]"
  let ?bs = "[0x10, 0x88, 0x01, 0x61, 0x88, 0x01, 0x62, 0x00, 0x38, 0x00] :: byte list"
  have ok: "pckOpsOk (pckTypeObj, 0) [] ?xs"
    by simp
  have wp: "pckWritePack (pckWriteNewBuf [] 0) ?xs = Inr ?bs"
    by (simp add: pckWrite_eval)
  have w: "wTagStackTop (pckWriteNewBuf [] 0) = tagStackNew pckTypeObj"
    "wTagStack (pckWriteNewBuf [] 0) = []" "pckWriteOutput (pckWriteNewBuf [] 0) = []"
    by (simp_all add: pckWriteNewBuf_def pckWriteOutput_def)
  have r: "pckReadInv (pckReadNewBuf ?bs)" "tagNextId (pckReadNewBuf ?bs) = 0"
    "tagStackTop (pckReadNewBuf ?bs) = tagStackNew pckTypeObj" "tagStack (pckReadNewBuf ?bs) = []"
    by (simp_all add: pckReadNewBuf_def pckReadInv_def)
  from pckWrite_pckRead_roundtrip [OF ok w r] wp ok show ?thesis
    by (auto simp del: pckReadOps.simps pckOpsOk.simps)
qed


section \<open>The end of a container\<close>

text \<open>
  Fields left unread in a frame whose last ID is \<open>l\<close>, as the writes that made them: typed
  writes that are not elided, with explicit ascending IDs below \<open>0xFFFFFFFE\<close>, none of
  them a container and none with a payload behind its tag (a Bin or Str is empty).
\<close>

fun pckOpsFlat :: "u32 \<Rightarrow> PackWriteOp list \<Rightarrow> bool" where
  "pckOpsFlat l [] = (l < 0xFFFFFFFE)"
| "pckOpsFlat l (x # xs) =
     (pckOpOk (pckTypeUnknown, l) [] x \<and> x \<noteq> WriteArrayBegin (the (pckWriteOpId x)) \<and>
      x \<noteq> WriteObjBegin (the (pckWriteOpId x)) \<and> pckOpPayload x = [] \<and>
      pckOpsFlat (the (pckWriteOpId x)) xs)"

text \<open>Their bytes.\<close>

fun pckOpsFlatBytes :: "u32 \<Rightarrow> PackWriteOp list \<Rightarrow> byte list" where
  "pckOpsFlatBytes l [] = []"
| "pckOpsFlatBytes l (x # xs) = pckOpBytes l x @ pckOpsFlatBytes (the (pckWriteOpId x)) xs"

lemma pckOpsFlat_bound: "pckOpsFlat l xs \<Longrightarrow> l < 0xFFFFFFFE"
proof (induction xs arbitrary: l)
  case Nil
  then show ?case by simp
next
  case (Cons x xs)
  then have "pckOpsFlat (the (pckWriteOpId x)) xs" and "l < the (pckWriteOpId x)"
    by (cases x; auto split: option.splits)+
  with Cons.IH show ?case by fastforce
qed

lemma pckOpsFlat_tag:
  assumes "pckOpsFlat l (x # xs)"
  shows "\<exists>ty v fid. pckOpTag x = Some (ty, v) \<and> pckWriteOpId x = Some fid \<and> l < fid \<and>
           fid < 0xFFFFFFFE \<and>
           pckOpBytes l x = pckTagBytes ty (fid - l - 1) v \<and> pckTagValueOk ty v \<and>
           ty \<noteq> pckTypeUnknown \<and> pckOpsFlat fid xs"
proof -
  from assms have f: "pckOpsFlat (the (pckWriteOpId x)) xs" by simp
  note b = pckOpsFlat_bound [OF f]
  from assms b show ?thesis
    by (cases x)
       (auto simp: pckOpBytes_def pckSizedBytes_def pckUInt64Bytes_nonempty split: option.splits)
qed

lemma pckReadTagLoop_skip:
  assumes "pckReadInv r" and "tagNextId r = 0" and "pckOpsFlat (idLast (tagStackTop r)) xs"
    and "pckReadStream r = pckOpsFlatBytes (idLast (tagStackTop r)) xs @ 0 # rest"
  shows "\<exists>v r1. pckReadTagLoop r 0xFFFFFFFE pckTypeUnknown True = Inr (v, r1) \<and>
           pckReadStream r1 = rest \<and> pckReadInv r1 \<and> tagStack r1 = tagStack r \<and>
           frameType (tagStackTop r1) = frameType (tagStackTop r)"
  using assms
proof (induction xs arbitrary: r)
  case Nil
  from Nil.prems(4) have s: "pckReadStream r = 0 # rest" by simp
  from pckReadTagNext_terminator [OF Nil.prems(1) s] obtain r1 where
    r1: "pckReadTagNext r = Inr (False, r1)" "pckReadStream r1 = rest" "pckReadInv r1"
      "pckReadCtl r1 = (pckReadCtl r)\<lparr>tagNextId := 0xFFFFFFFF\<rparr>"
    by blast
  have f: "tagNextId r1 = 0xFFFFFFFF" "tagStack r1 = tagStack r" "tagStackTop r1 = tagStackTop r"
    using arg_cong [OF r1(4), of tagNextId] arg_cong [OF r1(4), of tagStack]
      arg_cong [OF r1(4), of tagStackTop] by simp_all
  have "pckReadTagLoop r 0xFFFFFFFE pckTypeUnknown True = Inr (tagNextValue r1, r1)"
    using r1(1) f Nil.prems(2)
    by (simp add: pckReadTagLoop.simps [of r] pckReadTagFill_def)
  with r1(2,3) f show ?case by simp
next
  case (Cons x xs)
  from pckOpsFlat_tag [OF Cons.prems(3)] obtain ty v fid where
    x: "pckWriteOpId x = Some fid" "idLast (tagStackTop r) < fid" "fid < 0xFFFFFFFE"
      "pckOpBytes (idLast (tagStackTop r)) x = pckTagBytes ty (fid - idLast (tagStackTop r) - 1) v"
      "pckTagValueOk ty v" "ty \<noteq> pckTypeUnknown" "pckOpsFlat fid xs"
    by blast
  from Cons.prems(4) x(1,4)
  have s: "pckReadStream r = pckTagBytes ty (fid - idLast (tagStackTop r) - 1) v @
             (pckOpsFlatBytes fid xs @ 0 # rest)"
    by simp
  from pckReadTagFill_decode [OF Cons.prems(1,2) s x(5,6)] obtain r1 where
    r1: "pckReadTagFill r = Inr r1" "pckReadStream r1 = pckOpsFlatBytes fid xs @ 0 # rest"
      "pckReadInv r1"
      "pckReadCtl r1 = (pckReadCtl r)\<lparr>tagNextId := fid - idLast (tagStackTop r) - 1 + (idLast (tagStackTop r) + 1),
                                          tagNextType := ty, tagNextValue := v\<rparr>"
    by blast
  have c: "pckReadCtl r1 = (pckReadCtl r)\<lparr>tagNextId := fid, tagNextType := ty, tagNextValue := v\<rparr>"
    using r1(4) by simp
  have f: "tagNextId r1 = fid" "tagStackTop r1 = tagStackTop r" "tagStack r1 = tagStack r"
    using arg_cong [OF c, of tagNextId] arg_cong [OF c, of tagStackTop] arg_cong [OF c, of tagStack]
    by simp_all
  let ?r2 = "pckReadTagDone r1"
  have r2: "pckReadInv ?r2" "tagNextId ?r2 = 0" "idLast (tagStackTop ?r2) = fid"
    "pckReadStream ?r2 = pckOpsFlatBytes fid xs @ 0 # rest" "tagStack ?r2 = tagStack r"
    "frameType (tagStackTop ?r2) = frameType (tagStackTop r)"
    using r1(2,3) f by (simp_all add: pckReadTagDone_def)
  from Cons.IH [OF r2(1,2)] x(7) r2(3,4) obtain v' r3 where
    r3: "pckReadTagLoop ?r2 0xFFFFFFFE pckTypeUnknown True = Inr (v', r3)"
      "pckReadStream r3 = rest" "pckReadInv r3" "tagStack r3 = tagStack ?r2"
      "frameType (tagStackTop r3) = frameType (tagStackTop ?r2)"
    by auto
  from x(3) have ne: "\<not> (0xFFFFFFFE :: u32) < fid" "(0xFFFFFFFE :: u32) \<noteq> fid" by auto
  have "pckReadTagLoop r 0xFFFFFFFE pckTypeUnknown True = Inr (v', r3)"
    using r1(1) f(1) ne r3(1)
    by (simp add: pckReadTagLoop.simps [of r] pckReadTagSkip_def ptd_def)
  with r3 r2 show ?case by simp
qed

lemma pckOpsFlat_write:
  assumes "pckOpsFlat (idLast (wTagStackTop w)) xs"
  shows "\<exists>w'. pckWriteOps w xs = Inr w' \<and>
           pckWriteOutput w' = pckWriteOutput w @ pckOpsFlatBytes (idLast (wTagStackTop w)) xs"
  using assms
proof (induction xs arbitrary: w)
  case Nil
  then show ?case by simp
next
  case (Cons x xs)
  let ?l = "idLast (wTagStackTop w)"
  from pckOpsFlat_tag [OF Cons.prems] obtain ty v fid where
    x: "pckOpTag x = Some (ty, v)" "pckWriteOpId x = Some fid" "pckOpsFlat fid xs"
    by blast
  from Cons.prems x(2)
  have ok: "pckOpOk (pckFrameOf (wTagStackTop w)) (map pckFrameOf (wTagStack w)) x"
    and nb: "x \<noteq> WriteArrayBegin fid" "x \<noteq> WriteObjBegin fid"
    by (cases x; simp add: pckFrameOf_def)+
  from pckWriteOp_bytes [OF ok] obtain w1 where
    w1: "pckWriteOp w x = Inr w1" "pckWriteOutput w1 = pckWriteOutput w @ pckOpBytes ?l x"
      "(pckFrameOf (wTagStackTop w1), map pckFrameOf (wTagStack w1)) =
         pckOpFrames (pckFrameOf (wTagStackTop w)) (map pckFrameOf (wTagStack w)) x"
    by blast
  from w1(3) x(1,2) nb have "idLast (wTagStackTop w1) = fid"
    by (cases x) (auto simp: pckFrameOf_def)
  with Cons.IH [of w1] x(3) obtain w' where
    "pckWriteOps w1 xs = Inr w'" "pckWriteOutput w' = pckWriteOutput w1 @ pckOpsFlatBytes fid xs"
    by auto
  with w1(1,2) x(2) show ?case by simp
qed

section \<open>Peeking at a field\<close>

lemma pckReadBuffer_ctl: "pckReadBuffer r n = Inr (k, r1) \<Longrightarrow> pckReadCtl r1 = pckReadCtl r"
  by (auto simp: pckReadBuffer_def ioReadSmall_def pckReadCtl_def Let_def
      split: if_splits option.splits)

lemma pckReadUInt64Loop_ctl:
  "pckReadUInt64Loop this i r b = Inr (r', b', this1) \<Longrightarrow> pckReadCtl this1 = pckReadCtl this"
proof (induction this i r b rule: pckReadUInt64Loop.induct)
  case (1 this bufferIdx result byte)
  show ?case
  proof (cases "bufferIdx < PACK_UINT64_SIZE_MAX")
    case False
    with "1.prems" show ?thesis by (simp add: pckReadUInt64Loop.simps [of this])
  next
    case True
    from True "1.prems" obtain n th where rb: "pckReadBuffer this 1 = Inr (n, th)"
      by (auto simp: pckReadUInt64Loop.simps [of this] split: sum.splits)
    note c = pckReadBuffer_ctl [OF rb]
    show ?thesis
    proof (cases "bufferPtr th ! bufferPos th < 0x80")
      case True
      with \<open>bufferIdx < PACK_UINT64_SIZE_MAX\<close> "1.prems" rb c show ?thesis
        by (auto simp: Let_def pckReadUInt64Loop.simps [of this])
    next
      case False
      let ?th' = "th\<lparr>bufferPos := bufferPos th + 1\<rparr>"
      let ?b = "bufferPtr th ! bufferPos th"
      let ?r = "result OR push_bit (7 * bufferIdx) (ucast (?b AND 0x7f))"
      from False \<open>bufferIdx < PACK_UINT64_SIZE_MAX\<close> "1.prems" rb
      have rec: "pckReadUInt64Loop ?th' (bufferIdx + 1) ?r ?b = Inr (r', b', this1)"
        by (simp add: Let_def pckReadUInt64Loop.simps [of this])
      have "pckReadCtl this1 = pckReadCtl ?th'"
        using "1.IH" [OF \<open>bufferIdx < PACK_UINT64_SIZE_MAX\<close> rb refl refl refl False rec] .
      with c show ?thesis by simp
    qed
  qed
qed

lemma pckReadUInt64Internal_ctl:
  "pckReadUInt64Internal r = Inr (v, r1) \<Longrightarrow> pckReadCtl r1 = pckReadCtl r"
  by (auto simp: pckReadUInt64Internal_def split: sum.splits if_splits
      dest!: pckReadUInt64Loop_ctl)

lemma pckReadTagId_ctl:
  "pckReadTagId r low m sh = Inr (tid, r1) \<Longrightarrow> pckReadCtl r1 = pckReadCtl r"
  by (auto simp: pckReadTagId_def split: if_splits sum.splits dest: pckReadUInt64Internal_ctl)

lemma pckReadCtl_frames:
  "pckReadCtl a = pckReadCtl b \<Longrightarrow> tagStack a = tagStack b \<and> tagStackTop a = tagStackTop b"
  using pckReadCtl_eqD(4,5) by blast

lemma pckReadUInt64Internal_frames:
  "pckReadUInt64Internal r = Inr (v, r1) \<Longrightarrow> tagStack r1 = tagStack r \<and> tagStackTop r1 = tagStackTop r"
  by (rule pckReadCtl_frames) (rule pckReadUInt64Internal_ctl)

lemma pckReadTagId_frames:
  "pckReadTagId r low m sh = Inr (tid, r1) \<Longrightarrow> tagStack r1 = tagStack r \<and> tagStackTop r1 = tagStackTop r"
  by (rule pckReadCtl_frames) (rule pckReadTagId_ctl)

lemma pckReadTagNext_frames:
  assumes "pckReadTagNext r = Inr (b, r1)"
  shows "tagStack r1 = tagStack r \<and> tagStackTop r1 = tagStackTop r"
proof -
  from assms obtain n th where rb: "pckReadBuffer r 1 = Inr (n, th)"
    by (auto simp: pckReadTagNext_def split: sum.splits)
  note c = pckReadCtl_frames [OF pckReadBuffer_ctl [OF rb]]
  have "tagStack r1 = tagStack th \<and> tagStackTop r1 = tagStackTop th"
    using assms rb
    by (auto simp: pckReadTagNext_def Let_def
        split: sum.splits if_splits option.splits
        dest!: pckReadTagId_frames pckReadUInt64Internal_frames)
  with c show ?thesis by simp
qed

lemma pckReadTagFill_frames:
  "pckReadTagFill r = Inr r1 \<Longrightarrow> tagStack r1 = tagStack r \<and> tagStackTop r1 = tagStackTop r"
  by (auto simp: pckReadTagFill_def split: if_splits sum.splits dest: pckReadTagNext_frames)

lemma pckReadTagLoop_peek_le:
  "pckReadTagLoop r fid ty True = Inr (v, r1) \<Longrightarrow> fid \<le> tagNextId r1"
proof (induction r fid ty "True" arbitrary: v r1 rule: pckReadTagLoop.induct)
  case (1 this fid type)
  from "1.prems" obtain th where fill: "pckReadTagFill this = Inr th"
    by (auto simp: pckReadTagLoop.simps [of this] split: sum.splits)
  show ?case
  proof (cases "fid \<le> tagNextId th")
    case True
    with "1.prems" fill show ?thesis
      by (auto simp: pckReadTagLoop.simps [of this] split: if_splits)
  next
    case False
    then have n: "\<not> fid < tagNextId th" "fid \<noteq> tagNextId th" by auto
    from "1.prems" fill n obtain th2 where
      sk: "pckReadTagSkip th type = Inr th2"
      and rec: "pckReadTagLoop (pckReadTagDone th2) fid type True = Inr (v, r1)"
      by (auto simp: pckReadTagLoop.simps [of this] split: sum.splits)
    from "1.hyps" [OF fill n sk rec] show ?thesis .
  qed
qed

lemma pckReadNull_stops:
  assumes "pckReadNull r k = Inr (b, r1)"
  shows "b = (pckReadTagIdEff r k < tagNextId r1) \<and> pckReadTagIdEff r k \<le> tagNextId r1"
proof -
  from assms obtain v where
    "pckReadTagLoop r (pckReadTagIdEff r k) pckTypeUnknown True = Inr (v, r1)"
    and "b = (pckReadTagIdEff r k < tagNextId r1)"
    by (auto simp: pckReadNull_def pckReadNullInternal_def pckReadTag_def pckReadTagIdEff_def
        Let_def split: sum.splits if_splits)
  with pckReadTagLoop_peek_le [of r "pckReadTagIdEff r k" pckTypeUnknown v r1] show ?thesis
    by simp
qed

lemma pckReadNull_no_skip:
  assumes "k = 0 \<or> idLast (tagStackTop r) < k" and "pckReadTagFill r = Inr r1"
    and "pckReadTagIdEff r k \<le> tagNextId r1"
  shows "pckReadNull r k = Inr (pckReadTagIdEff r k < tagNextId r1, r1)"
proof -
  define n where "n = pckReadTagIdEff r k"
  from assms(3) have le: "n \<le> tagNextId r1" by (simp add: n_def)
  from assms(2) le
  have "pckReadTagLoop r n pckTypeUnknown True = Inr (tagNextValue r1, r1)"
    by (auto simp: pckReadTagLoop.simps [of r] Let_def not_le)
  moreover have "pckReadNull r k =
    (case pckReadTagLoop r n pckTypeUnknown True of Inl e \<Rightarrow> Inl e
     | Inr (v, r') \<Rightarrow> Inr (n < tagNextId r', r'))"
    using assms(1)
    by (auto simp: pckReadNull_def pckReadNullInternal_def pckReadTag_def pckReadTagIdEff_def
        n_def Let_def split: sum.splits)
  ultimately show ?thesis by (simp add: n_def)
qed

lemma pckOpOk_tag:
  assumes "pckOpOk (ty0, l) fs y" and "pckWriteOpId y = Some k'"
  shows "\<exists>ty v. pckOpTag y = Some (ty, v) \<and> l < k' \<and>
           pckOpBytes l y = pckTagBytes ty (k' - l - 1) v @ pckOpPayload y \<and>
           pckTagValueOk ty v \<and> ty \<noteq> pckTypeUnknown"
  using assms
  by (cases y) (auto simp: pckOpBytes_def split: option.splits)

lemma pckOpOk_end:
  assumes "pckOpOk (ty0, l) fs y" and "pckWriteOpId y = None"
  shows "pckOpBytes l y = [0]"
  using assms
  by (cases y) (auto simp: pckOpBytes_def split: option.splits)

lemma pckReadNull_elided:
  assumes inv: "pckReadInv r" and la: "tagNextId r = 0" and lk: "idLast (tagStackTop r) < k"
    and ok: "pckOpOk (ty0, idLast (tagStackTop r)) fs y"
    and ky: "case pckWriteOpId y of Some k' \<Rightarrow> k < k' | None \<Rightarrow> k < 0xFFFFFFFF"
    and str: "pckReadStream r = pckOpBytes (idLast (tagStackTop r)) y @ rest"
  shows "\<exists>r'. pckReadNull r k = Inr (True, r') \<and> tagStackTop r' = tagStackTop r \<and>
           tagStack r' = tagStack r"
proof -
  from lk have kk: "k = 0 \<or> idLast (tagStackTop r) < k" and eff: "pckReadTagIdEff r k = k"
    by (auto simp: pckReadTagIdEff_def)
  have "\<exists>r1. pckReadTagFill r = Inr r1 \<and> k < tagNextId r1"
  proof (cases "pckWriteOpId y")
    case None
    from pckOpOk_end [OF ok None] str have s: "pckReadStream r = 0 # rest" by simp
    from pckReadTagNext_terminator [OF inv s] obtain r1 where
      r1: "pckReadTagNext r = Inr (False, r1)"
        "pckReadCtl r1 = (pckReadCtl r)\<lparr>tagNextId := 0xFFFFFFFF\<rparr>"
      by blast
    from arg_cong [OF r1(2), of tagNextId] have "tagNextId r1 = 0xFFFFFFFF" by simp
    with r1(1) la ky None show ?thesis by (simp add: pckReadTagFill_def)
  next
    case (Some k')
    from pckOpOk_tag [OF ok Some] obtain ty v where
      t: "idLast (tagStackTop r) < k'"
        "pckOpBytes (idLast (tagStackTop r)) y =
           pckTagBytes ty (k' - idLast (tagStackTop r) - 1) v @ pckOpPayload y"
        "pckTagValueOk ty v" "ty \<noteq> pckTypeUnknown"
      by blast
    from str t(2)
    have s: "pckReadStream r = pckTagBytes ty (k' - idLast (tagStackTop r) - 1) v @ (pckOpPayload y @ rest)"
      by simp
    from pckReadTagFill_decode [OF inv la s t(3,4)] obtain r1 where
      r1: "pckReadTagFill r = Inr r1"
        "pckReadCtl r1 = (pckReadCtl r)\<lparr>tagNextId := k' - idLast (tagStackTop r) - 1 + (idLast (tagStackTop r) + 1),
                                          tagNextType := ty, tagNextValue := v\<rparr>"
      by blast
    from arg_cong [OF r1(2), of tagNextId] have "tagNextId r1 = k'" by simp
    with r1(1) ky Some show ?thesis by simp
  qed
  then obtain r1 where r1: "pckReadTagFill r = Inr r1" "k < tagNextId r1" by blast
  then have "pckReadTagIdEff r k \<le> tagNextId r1" by (simp add: eff)
  from pckReadNull_no_skip [OF kk r1(1) this] r1(2) pckReadTagFill_frames [OF r1(1)] eff
  show ?thesis by simp
qed

section \<open>The fields a frame still holds\<close>

text \<open>
  The ID the lookahead takes when the next of the fields \<open>xs\<close> is parsed: the ID of the
  first of them, or \<open>0xFFFFFFFF\<close> for the terminator when none is left.
\<close>

fun pckNextId :: "PackWriteOp list \<Rightarrow> u32" where
  "pckNextId [] = 0xFFFFFFFF"
| "pckNextId (x # xs) = the (pckWriteOpId x)"

text \<open>
  A reader whose current frame still holds the fields \<open>xs\<close> (as the writes that made them,
  see \<open>pckOpsFlat\<close>), then its terminator, then \<open>rest\<close>. Without lookahead all their bytes
  are still in the input. With a lookahead the tag of the first field has been parsed and
  is held there, or the terminator has when no field is left.
\<close>

definition pckReadPending :: "PackRead \<Rightarrow> PackWriteOp list \<Rightarrow> byte list \<Rightarrow> bool" where
  "pckReadPending r xs rest =
     (pckReadInv r \<and> pckOpsFlat (idLast (tagStackTop r)) xs \<and>
      (if tagNextId r = 0
       then pckReadStream r = pckOpsFlatBytes (idLast (tagStackTop r)) xs @ 0 # rest
       else tagNextId r = pckNextId xs \<and>
            (case xs of
               [] \<Rightarrow> pckReadStream r = rest
             | x # xs' \<Rightarrow>
                 pckOpTag x = Some (tagNextType r, tagNextValue r) \<and>
                 pckReadStream r = pckOpsFlatBytes (tagNextId r) xs' @ 0 # rest)))"

lemma pckReadTagLoop_fill:
  assumes "pckReadTagFill r = Inr r1" and "tagNextId r1 \<noteq> 0"
  shows "pckReadTagLoop r n ty p = pckReadTagLoop r1 n ty p"
proof -
  from assms(2) have "pckReadTagFill r1 = Inr r1" by (simp add: pckReadTagFill_def)
  with assms(1) show ?thesis
    by (simp add: pckReadTagLoop.simps [of r] pckReadTagLoop.simps [of r1])
qed

lemma pckOpsFlat_head:
  assumes "pckOpsFlat l (x # xs)"
  shows "l < the (pckWriteOpId x)" and "the (pckWriteOpId x) < 0xFFFFFFFE"
    and "pckOpsFlat (the (pckWriteOpId x)) xs"
  using pckOpsFlat_tag [OF assms] by auto

lemma pckReadPending_fill:
  assumes "pckReadPending r xs rest"
  shows "\<exists>r1. pckReadTagFill r = Inr r1 \<and> pckReadPending r1 xs rest \<and>
           tagNextId r1 = pckNextId xs \<and> tagNextId r1 \<noteq> 0 \<and>
           tagStack r1 = tagStack r \<and> tagStackTop r1 = tagStackTop r"
proof (cases "tagNextId r = 0")
  case False
  have "pckNextId xs \<noteq> 0"
  proof (cases xs)
    case Nil
    then show ?thesis by simp
  next
    case (Cons x xs')
    with assms pckOpsFlat_head(1) [of "idLast (tagStackTop r)" x xs'] show ?thesis
      by (auto simp: pckReadPending_def)
  qed
  with False assms show ?thesis
    by (auto simp: pckReadTagFill_def pckReadPending_def)
next
  case True
  from assms True have inv: "pckReadInv r" and fl: "pckOpsFlat (idLast (tagStackTop r)) xs"
    and str: "pckReadStream r = pckOpsFlatBytes (idLast (tagStackTop r)) xs @ 0 # rest"
    by (simp_all add: pckReadPending_def)
  show ?thesis
  proof (cases xs)
    case Nil
    from str Nil have s: "pckReadStream r = 0 # rest" by simp
    from pckReadTagNext_terminator [OF inv s] obtain r1 where
      r1: "pckReadTagNext r = Inr (False, r1)" "pckReadStream r1 = rest" "pckReadInv r1"
        "pckReadCtl r1 = (pckReadCtl r)\<lparr>tagNextId := 0xFFFFFFFF\<rparr>"
      by blast
    have f: "tagNextId r1 = 0xFFFFFFFF" "tagStack r1 = tagStack r" "tagStackTop r1 = tagStackTop r"
      using arg_cong [OF r1(4), of tagNextId] arg_cong [OF r1(4), of tagStack]
        arg_cong [OF r1(4), of tagStackTop] by simp_all
    from r1 f True Nil fl show ?thesis
      by (simp add: pckReadTagFill_def pckReadPending_def)
  next
    case (Cons x xs')
    from pckOpsFlat_tag [OF fl [unfolded Cons]] obtain ty v fid where
      x: "pckOpTag x = Some (ty, v)" "pckWriteOpId x = Some fid" "idLast (tagStackTop r) < fid"
        "pckOpBytes (idLast (tagStackTop r)) x = pckTagBytes ty (fid - idLast (tagStackTop r) - 1) v"
        "pckTagValueOk ty v" "ty \<noteq> pckTypeUnknown"
      by blast
    from str Cons x(2,4)
    have s: "pckReadStream r = pckTagBytes ty (fid - idLast (tagStackTop r) - 1) v @
               (pckOpsFlatBytes fid xs' @ 0 # rest)"
      by simp
    from pckReadTagFill_decode [OF inv True s x(5,6)] obtain r1 where
      r1: "pckReadTagFill r = Inr r1" "pckReadStream r1 = pckOpsFlatBytes fid xs' @ 0 # rest"
        "pckReadInv r1"
        "pckReadCtl r1 = (pckReadCtl r)\<lparr>tagNextId := fid - idLast (tagStackTop r) - 1 + (idLast (tagStackTop r) + 1),
                                            tagNextType := ty, tagNextValue := v\<rparr>"
      by blast
    have c: "pckReadCtl r1 = (pckReadCtl r)\<lparr>tagNextId := fid, tagNextType := ty, tagNextValue := v\<rparr>"
      using r1(4) by simp
    have f: "tagNextId r1 = fid" "tagNextType r1 = ty" "tagNextValue r1 = v"
      "tagStackTop r1 = tagStackTop r" "tagStack r1 = tagStack r"
      using arg_cong [OF c, of tagNextId] arg_cong [OF c, of tagNextType]
        arg_cong [OF c, of tagNextValue] arg_cong [OF c, of tagStackTop]
        arg_cong [OF c, of tagStack]
      by simp_all
    from x(3) have "fid \<noteq> 0" by auto
    with r1(1,2,3) f x(1,2) fl Cons show ?thesis
      by (simp add: pckReadPending_def)
  qed
qed

lemma pckReadPending_done:
  assumes "pckReadPending r (x # xs) rest" and "tagNextId r \<noteq> 0"
  shows "pckReadPending (pckReadTagDone r) xs rest"
    and "tagStackTop (pckReadTagDone r) = (tagStackTop r)\<lparr>idLast := the (pckWriteOpId x)\<rparr>"
    and "tagStack (pckReadTagDone r) = tagStack r"
    and "tagNextValue r = snd (the (pckOpTag x))" and "tagNextId r = the (pckWriteOpId x)"
proof -
  from assms have fl: "pckOpsFlat (idLast (tagStackTop r)) (x # xs)"
    and i: "tagNextId r = the (pckWriteOpId x)"
    and t: "pckOpTag x = Some (tagNextType r, tagNextValue r)"
    and s: "pckReadStream r = pckOpsFlatBytes (tagNextId r) xs @ 0 # rest"
    and inv: "pckReadInv r"
    by (simp_all add: pckReadPending_def)
  from pckOpsFlat_head(3) [OF fl] i inv s
  show "pckReadPending (pckReadTagDone r) xs rest"
    by (simp add: pckReadPending_def) (simp add: pckReadTagDone_def)
  from i show "tagStackTop (pckReadTagDone r) = (tagStackTop r)\<lparr>idLast := the (pckWriteOpId x)\<rparr>"
    by (simp add: pckReadTagDone_def)
  show "tagStack (pckReadTagDone r) = tagStack r" by (simp add: pckReadTagDone_def)
  from t show "tagNextValue r = snd (the (pckOpTag x))" by simp
  from i show "tagNextId r = the (pckWriteOpId x)" .
qed

text \<open>
  The loop of \<open>pckReadTag\<close> at ID \<open>n\<close> passes the fields \<open>ys\<close> with IDs less than \<open>n\<close>, when
  the requested type does not make it read a size behind their tags, and goes on from
  the reader \<open>r1\<close> that holds the next tag in its lookahead.
\<close>

lemma pckReadTagLoop_pending:
  assumes "pckReadPending r (ys @ zs) rest"
    and "\<forall>y\<in>set ys. the (pckWriteOpId y) < n \<and>
           \<not> (sizeFlag (packTypeData ty) \<and> snd (the (pckOpTag y)) \<noteq> 0)"
  shows "\<exists>r1. pckReadTagLoop r n ty p = pckReadTagLoop r1 n ty p \<and>
           pckReadTagFill r1 = Inr r1 \<and> pckReadPending r1 zs rest \<and>
           tagNextId r1 = pckNextId zs \<and> tagNextId r1 \<noteq> 0 \<and> tagStack r1 = tagStack r \<and>
           tagStackTop r1 = (tagStackTop r)
             \<lparr>idLast := last (idLast (tagStackTop r) # map (\<lambda>y. the (pckWriteOpId y)) ys)\<rparr>"
  using assms
proof (induction ys arbitrary: r)
  case Nil
  from pckReadPending_fill [of r zs rest] Nil.prems(1) obtain r1 where
    r1: "pckReadTagFill r = Inr r1" "pckReadPending r1 zs rest" "tagNextId r1 = pckNextId zs"
      "tagNextId r1 \<noteq> 0" "tagStack r1 = tagStack r" "tagStackTop r1 = tagStackTop r"
    by auto
  from r1(4) have "pckReadTagFill r1 = Inr r1" by (simp add: pckReadTagFill_def)
  with pckReadTagLoop_fill [OF r1(1,4)] r1 show ?case by auto
next
  case (Cons y ys)
  from Cons.prems(1) have p: "pckReadPending r (y # (ys @ zs)) rest" by simp
  from pckReadPending_fill [OF p] obtain r1 where
    r1: "pckReadTagFill r = Inr r1" "pckReadPending r1 (y # (ys @ zs)) rest"
      "tagNextId r1 \<noteq> 0" "tagStack r1 = tagStack r" "tagStackTop r1 = tagStackTop r"
    by auto
  note d = pckReadPending_done [OF r1(2,3)]
  from Cons.prems(2) have y: "the (pckWriteOpId y) < n"
    "\<not> (sizeFlag (packTypeData ty) \<and> snd (the (pckOpTag y)) \<noteq> 0)"
    and ys: "\<forall>y\<in>set ys. the (pckWriteOpId y) < n \<and>
           \<not> (sizeFlag (packTypeData ty) \<and> snd (the (pckOpTag y)) \<noteq> 0)"
    by simp_all
  from y(1) d(5) have ne: "\<not> n < tagNextId r1" "n \<noteq> tagNextId r1" by auto
  from y(2) d(4) have sk: "pckReadTagSkip r1 ty = Inr r1" by (auto simp: pckReadTagSkip_def)
  have step: "pckReadTagLoop r n ty p = pckReadTagLoop (pckReadTagDone r1) n ty p"
    using r1(1) ne sk by (simp add: pckReadTagLoop.simps [of r])
  from Cons.IH [OF d(1) ys] obtain r2 where
    r2: "pckReadTagLoop (pckReadTagDone r1) n ty p = pckReadTagLoop r2 n ty p"
      "pckReadTagFill r2 = Inr r2" "pckReadPending r2 zs rest" "tagNextId r2 = pckNextId zs"
      "tagNextId r2 \<noteq> 0" "tagStack r2 = tagStack (pckReadTagDone r1)"
      "tagStackTop r2 = (tagStackTop (pckReadTagDone r1))
         \<lparr>idLast := last (idLast (tagStackTop (pckReadTagDone r1)) #
                          map (\<lambda>y. the (pckWriteOpId y)) ys)\<rparr>"
    by blast
  from r2 step d(2,3) r1(4,5) show ?case by auto
qed

lemma pckOpsFlat_ids: "pckOpsFlat l xs \<Longrightarrow> \<forall>x\<in>set xs. l < the (pckWriteOpId x)"
proof (induction xs arbitrary: l)
  case Nil
  then show ?case by simp
next
  case (Cons x xs)
  note h = pckOpsFlat_head [OF Cons.prems]
  from Cons.IH [OF h(3)] h(1) show ?case by fastforce
qed

lemma pckOpsFlat_ids_bound:
  "pckOpsFlat l xs \<Longrightarrow> \<forall>x\<in>set xs. the (pckWriteOpId x) < 0xFFFFFFFE"
proof (induction xs arbitrary: l)
  case Nil
  then show ?case by simp
next
  case (Cons x xs)
  note h = pckOpsFlat_head [OF Cons.prems]
  from Cons.IH [OF h(3)] h(2) show ?case by simp
qed

lemma pckOpsFlat_append:
  "pckOpsFlat l (ys @ zs) \<Longrightarrow>
     pckOpsFlat (last (l # map (\<lambda>y. the (pckWriteOpId y)) ys)) zs"
proof (induction ys arbitrary: l)
  case Nil
  then show ?case by simp
next
  case (Cons y ys)
  from Cons.prems have "pckOpsFlat l (y # (ys @ zs))" by simp
  from Cons.IH [OF pckOpsFlat_head(3) [OF this]] show ?case by simp
qed

text \<open>
  With the fields in ascending order, those of \<open>ys\<close> below \<open>n\<close> and those of \<open>zs\<close> not:
  no field has the ID \<open>n\<close> iff \<open>n\<close> is less than the ID the lookahead takes after \<open>ys\<close>.
\<close>

lemma pckNextId_absent:
  assumes fl: "pckOpsFlat l (ys @ zs)" and ys: "\<forall>y\<in>set ys. the (pckWriteOpId y) < n"
    and le: "n \<le> pckNextId zs" and n: "n < 0xFFFFFFFF"
  shows "(n < pckNextId zs) = (n \<notin> (\<lambda>x. the (pckWriteOpId x)) ` set (ys @ zs))"
proof (cases zs)
  case Nil
  with ys n show ?thesis by auto
next
  case (Cons z zs')
  from pckOpsFlat_append [OF fl] Cons
  have "pckOpsFlat (the (pckWriteOpId z)) zs'"
    using pckOpsFlat_head(3) by blast
  from pckOpsFlat_ids [OF this] have gt: "\<forall>x\<in>set zs'. the (pckWriteOpId z) < the (pckWriteOpId x)" .
  from le Cons have le': "n \<le> the (pckWriteOpId z)" by simp
  show ?thesis
  proof (cases "n = the (pckWriteOpId z)")
    case True
    with Cons show ?thesis by simp
  next
    case False
    with le' have lt: "n < the (pckWriteOpId z)" by simp
    with gt have "\<forall>x\<in>set zs'. n < the (pckWriteOpId x)" by fastforce
    with lt ys Cons show ?thesis by fastforce
  qed
qed

text \<open>A peek at ID \<open>fid\<close> passes the fields with lower IDs and stops at the next tag.\<close>

lemma pckReadTag_peek_pending:
  assumes p: "pckReadPending r (ys @ zs) rest"
    and f: "fid = 0 \<or> idLast (tagStackTop r) < fid"
    and ys: "\<forall>y\<in>set ys. the (pckWriteOpId y) < pckReadTagIdEff r fid"
    and le: "pckReadTagIdEff r fid \<le> pckNextId zs"
  shows "\<exists>r1. pckReadTag r fid pckTypeUnknown True =
                 Inr (pckReadTagIdEff r fid, tagNextValue r1, r1) \<and>
           pckReadPending r1 zs rest \<and> tagNextId r1 = pckNextId zs \<and>
           tagStack r1 = tagStack r \<and>
           tagStackTop r1 = (tagStackTop r)
             \<lparr>idLast := last (idLast (tagStackTop r) # map (\<lambda>y. the (pckWriteOpId y)) ys)\<rparr>"
proof -
  define n where "n = pckReadTagIdEff r fid"
  from ys have ys': "\<forall>y\<in>set ys. the (pckWriteOpId y) < n \<and>
      \<not> (sizeFlag (packTypeData pckTypeUnknown) \<and> snd (the (pckOpTag y)) \<noteq> 0)"
    by (simp add: n_def ptd_def)
  from pckReadTagLoop_pending [OF p ys', of True] obtain r1 where
    r1: "pckReadTagLoop r n pckTypeUnknown True = pckReadTagLoop r1 n pckTypeUnknown True"
      "pckReadTagFill r1 = Inr r1" "pckReadPending r1 zs rest" "tagNextId r1 = pckNextId zs"
      "tagStack r1 = tagStack r"
      "tagStackTop r1 = (tagStackTop r)
         \<lparr>idLast := last (idLast (tagStackTop r) # map (\<lambda>y. the (pckWriteOpId y)) ys)\<rparr>"
    by blast
  from le r1(4) have "n \<le> tagNextId r1" by (simp add: n_def)
  with r1(2) have "pckReadTagLoop r1 n pckTypeUnknown True = Inr (tagNextValue r1, r1)"
    by (auto simp: pckReadTagLoop.simps [of r1] not_le)
  with r1(1) have l: "pckReadTagLoop r n pckTypeUnknown True = Inr (tagNextValue r1, r1)" by simp
  from f l [unfolded n_def]
  have "pckReadTag r fid pckTypeUnknown True = Inr (pckReadTagIdEff r fid, tagNextValue r1, r1)"
    by (auto simp: pckReadTag_def pckReadTagIdEff_def Let_def)
  with r1 show ?thesis by auto
qed

text \<open>A read of type \<open>ty\<close> without \<open>defaultNull\<close> at an ID that no field has.\<close>

lemma pckReadTag_absent_pending:
  assumes p: "pckReadPending r (ys @ zs) rest"
    and f: "fid = 0 \<or> idLast (tagStackTop r) < fid"
    and ys: "\<forall>y\<in>set ys. the (pckWriteOpId y) < pckReadTagIdEff r fid \<and>
               \<not> (sizeFlag (packTypeData ty) \<and> snd (the (pckOpTag y)) \<noteq> 0)"
    and lt: "pckReadTagIdEff r fid < pckNextId zs" and ty: "ty \<noteq> pckTypeUnknown"
  shows "pckReadTag r fid ty False =
           Inl (FormatError ''field %u does not exist'' [ArgUInt (pckReadTagIdEff r fid)])"
proof -
  define n where "n = pckReadTagIdEff r fid"
  from ys have ys': "\<forall>y\<in>set ys. the (pckWriteOpId y) < n \<and>
      \<not> (sizeFlag (packTypeData ty) \<and> snd (the (pckOpTag y)) \<noteq> 0)"
    by (simp add: n_def)
  from pckReadTagLoop_pending [OF p ys', of False] obtain r1 where
    r1: "pckReadTagLoop r n ty False = pckReadTagLoop r1 n ty False"
      "pckReadTagFill r1 = Inr r1" "tagNextId r1 = pckNextId zs"
    by blast
  from lt r1(3) have "n < tagNextId r1" by (simp add: n_def)
  with r1(2) have "pckReadTagLoop r1 n ty False =
      Inl (FormatError ''field %u does not exist'' [ArgUInt n])"
    by (simp add: pckReadTagLoop.simps [of r1])
  with r1(1) have "pckReadTagLoop r (pckReadTagIdEff r fid) ty False =
      Inl (FormatError ''field %u does not exist'' [ArgUInt (pckReadTagIdEff r fid)])"
    by (simp add: n_def)
  with f ty show ?thesis
    by (auto simp: pckReadTag_def pckReadTagIdEff_def Let_def)
qed

text \<open>
  A typed read at an ID that no field of the frame has, after fields with lower IDs:
  with \<open>defaultNull\<close> the field is found absent, the last ID of the frame becoming the
  requested one; without it the read fails.
\<close>

lemma pckReadField_absent_pending:
  assumes p: "pckReadPending r (ys @ zs) rest"
    and f: "fid = 0 \<or> idLast (tagStackTop r) < fid"
    and ys: "\<forall>y\<in>set ys. the (pckWriteOpId y) < pckReadTagIdEff r fid"
    and lt: "pckReadTagIdEff r fid < pckNextId zs" and ty: "ty \<noteq> pckTypeUnknown"
  shows "\<exists>r1. pckReadField r fid True ty = Inr (None, pckReadIdLastSet r1 (pckReadTagIdEff r fid)) \<and>
           pckReadPending r1 zs rest \<and> tagNextId r1 = pckNextId zs \<and> tagStack r1 = tagStack r \<and>
           frameType (tagStackTop r1) = frameType (tagStackTop r)"
    and "\<forall>y\<in>set ys. \<not> (sizeFlag (packTypeData ty) \<and> snd (the (pckOpTag y)) \<noteq> 0) \<Longrightarrow>
         pckReadField r fid False ty =
           Inl (FormatError ''field %u does not exist'' [ArgUInt (pckReadTagIdEff r fid)])"
proof -
  from lt have le: "pckReadTagIdEff r fid \<le> pckNextId zs" by simp
  from pckReadTag_peek_pending [OF p f ys le] obtain r1 where
    r1: "pckReadTag r fid pckTypeUnknown True = Inr (pckReadTagIdEff r fid, tagNextValue r1, r1)"
      "pckReadPending r1 zs rest" "tagNextId r1 = pckNextId zs" "tagStack r1 = tagStack r"
      "tagStackTop r1 = (tagStackTop r)
         \<lparr>idLast := last (idLast (tagStackTop r) # map (\<lambda>y. the (pckWriteOpId y)) ys)\<rparr>"
    by blast
  from r1(1,3) lt
  have "pckReadField r fid True ty = Inr (None, pckReadIdLastSet r1 (pckReadTagIdEff r fid))"
    by (simp add: pckReadField_def pckReadDefaultNull_def pckReadNullInternal_def
        pckReadIdLastSet_def)
  with r1 show "\<exists>r1. pckReadField r fid True ty =
        Inr (None, pckReadIdLastSet r1 (pckReadTagIdEff r fid)) \<and>
      pckReadPending r1 zs rest \<and> tagNextId r1 = pckNextId zs \<and> tagStack r1 = tagStack r \<and>
      frameType (tagStackTop r1) = frameType (tagStackTop r)"
    by auto
  assume "\<forall>y\<in>set ys. \<not> (sizeFlag (packTypeData ty) \<and> snd (the (pckOpTag y)) \<noteq> 0)"
  with ys have ys': "\<forall>y\<in>set ys. the (pckWriteOpId y) < pckReadTagIdEff r fid \<and>
      \<not> (sizeFlag (packTypeData ty) \<and> snd (the (pckOpTag y)) \<noteq> 0)"
    by simp
  from pckReadTag_absent_pending [OF p f ys' lt ty]
  show "pckReadField r fid False ty =
      Inl (FormatError ''field %u does not exist'' [ArgUInt (pckReadTagIdEff r fid)])"
    by (simp add: pckReadField_def pckReadDefaultNull_def pckReadTagIdEff_def)
qed

lemma pckRead_absent_pending:
  assumes p: "pckReadPending r (ys @ zs) rest"
    and f: "fid = 0 \<or> idLast (tagStackTop r) < fid"
    and ys: "\<forall>y\<in>set ys. the (pckWriteOpId y) < pckReadTagIdEff r fid"
    and lt: "pckReadTagIdEff r fid < pckNextId zs"
  shows "\<exists>r1. pckReadPending r1 zs rest \<and> tagNextId r1 = pckNextId zs \<and>
      pckReadBin r fid True = Inr (None, pckReadIdLastSet r1 (pckReadTagIdEff r fid)) \<and>
      pckReadBool r fid True bdv = Inr (bdv, pckReadIdLastSet r1 (pckReadTagIdEff r fid)) \<and>
      pckReadI32 r fid True i32dv = Inr (i32dv, pckReadIdLastSet r1 (pckReadTagIdEff r fid)) \<and>
      pckReadI64 r fid True i64dv = Inr (i64dv, pckReadIdLastSet r1 (pckReadTagIdEff r fid)) \<and>
      pckReadPtr r fid True = Inr (0, pckReadIdLastSet r1 (pckReadTagIdEff r fid)) \<and>
      pckReadStr r fid True sdv = Inr (sdv, pckReadIdLastSet r1 (pckReadTagIdEff r fid)) \<and>
      pckReadTime r fid True tdv = Inr (tdv, pckReadIdLastSet r1 (pckReadTagIdEff r fid)) \<and>
      pckReadU32 r fid True u32dv = Inr (u32dv, pckReadIdLastSet r1 (pckReadTagIdEff r fid)) \<and>
      pckReadU64 r fid True u64dv = Inr (u64dv, pckReadIdLastSet r1 (pckReadTagIdEff r fid))"
    and "pckReadBool r fid False bdv =
           Inl (FormatError ''field %u does not exist'' [ArgUInt (pckReadTagIdEff r fid)]) \<and>
      pckReadI32 r fid False i32dv =
           Inl (FormatError ''field %u does not exist'' [ArgUInt (pckReadTagIdEff r fid)]) \<and>
      pckReadI64 r fid False i64dv =
           Inl (FormatError ''field %u does not exist'' [ArgUInt (pckReadTagIdEff r fid)]) \<and>
      pckReadPtr r fid False =
           Inl (FormatError ''field %u does not exist'' [ArgUInt (pckReadTagIdEff r fid)]) \<and>
      pckReadTime r fid False tdv =
           Inl (FormatError ''field %u does not exist'' [ArgUInt (pckReadTagIdEff r fid)]) \<and>
      pckReadU32 r fid False u32dv =
           Inl (FormatError ''field %u does not exist'' [ArgUInt (pckReadTagIdEff r fid)]) \<and>
      pckReadU64 r fid False u64dv =
           Inl (FormatError ''field %u does not exist'' [ArgUInt (pckReadTagIdEff r fid)])"
    and "\<forall>y\<in>set ys. snd (the (pckOpTag y)) = 0 \<Longrightarrow>
      pckReadBin r fid False =
           Inl (FormatError ''field %u does not exist'' [ArgUInt (pckReadTagIdEff r fid)]) \<and>
      pckReadStr r fid False sdv =
           Inl (FormatError ''field %u does not exist'' [ArgUInt (pckReadTagIdEff r fid)])"
proof -
  from lt have le: "pckReadTagIdEff r fid \<le> pckNextId zs" by simp
  from pckReadTag_peek_pending [OF p f ys le] obtain r1 where
    r1: "pckReadTag r fid pckTypeUnknown True = Inr (pckReadTagIdEff r fid, tagNextValue r1, r1)"
      "pckReadPending r1 zs rest" "tagNextId r1 = pckNextId zs"
    by blast
  from r1(1,3) lt
  have "pckReadField r fid True ty = Inr (None, pckReadIdLastSet r1 (pckReadTagIdEff r fid))" for ty
    by (simp add: pckReadField_def pckReadDefaultNull_def pckReadNullInternal_def
        pckReadIdLastSet_def)
  with r1(2,3) show "\<exists>r1. pckReadPending r1 zs rest \<and> tagNextId r1 = pckNextId zs \<and>
      pckReadBin r fid True = Inr (None, pckReadIdLastSet r1 (pckReadTagIdEff r fid)) \<and>
      pckReadBool r fid True bdv = Inr (bdv, pckReadIdLastSet r1 (pckReadTagIdEff r fid)) \<and>
      pckReadI32 r fid True i32dv = Inr (i32dv, pckReadIdLastSet r1 (pckReadTagIdEff r fid)) \<and>
      pckReadI64 r fid True i64dv = Inr (i64dv, pckReadIdLastSet r1 (pckReadTagIdEff r fid)) \<and>
      pckReadPtr r fid True = Inr (0, pckReadIdLastSet r1 (pckReadTagIdEff r fid)) \<and>
      pckReadStr r fid True sdv = Inr (sdv, pckReadIdLastSet r1 (pckReadTagIdEff r fid)) \<and>
      pckReadTime r fid True tdv = Inr (tdv, pckReadIdLastSet r1 (pckReadTagIdEff r fid)) \<and>
      pckReadU32 r fid True u32dv = Inr (u32dv, pckReadIdLastSet r1 (pckReadTagIdEff r fid)) \<and>
      pckReadU64 r fid True u64dv = Inr (u64dv, pckReadIdLastSet r1 (pckReadTagIdEff r fid))"
    by (intro exI [of _ r1])
       (simp add: pckReadBin_def pckReadBool_def pckReadI32_def pckReadI64_def pckReadPtr_def
          pckReadStr_def pckReadTime_def pckReadU32_def pckReadU64_def)
  have e: "pckReadField r fid False ty =
      Inl (FormatError ''field %u does not exist'' [ArgUInt (pckReadTagIdEff r fid)])"
    if "ty \<noteq> pckTypeUnknown"
      and "\<forall>y\<in>set ys. \<not> (sizeFlag (packTypeData ty) \<and> snd (the (pckOpTag y)) \<noteq> 0)" for ty
    using pckReadField_absent_pending(2) [OF p f ys lt that] .
  show "pckReadBool r fid False bdv =
           Inl (FormatError ''field %u does not exist'' [ArgUInt (pckReadTagIdEff r fid)]) \<and>
      pckReadI32 r fid False i32dv =
           Inl (FormatError ''field %u does not exist'' [ArgUInt (pckReadTagIdEff r fid)]) \<and>
      pckReadI64 r fid False i64dv =
           Inl (FormatError ''field %u does not exist'' [ArgUInt (pckReadTagIdEff r fid)]) \<and>
      pckReadPtr r fid False =
           Inl (FormatError ''field %u does not exist'' [ArgUInt (pckReadTagIdEff r fid)]) \<and>
      pckReadTime r fid False tdv =
           Inl (FormatError ''field %u does not exist'' [ArgUInt (pckReadTagIdEff r fid)]) \<and>
      pckReadU32 r fid False u32dv =
           Inl (FormatError ''field %u does not exist'' [ArgUInt (pckReadTagIdEff r fid)]) \<and>
      pckReadU64 r fid False u64dv =
           Inl (FormatError ''field %u does not exist'' [ArgUInt (pckReadTagIdEff r fid)])"
    by (simp add: e ptd_def pckReadBool_def pckReadI32_def pckReadI64_def pckReadPtr_def
          pckReadTime_def pckReadU32_def pckReadU64_def)
  assume "\<forall>y\<in>set ys. snd (the (pckOpTag y)) = 0"
  then show "pckReadBin r fid False =
           Inl (FormatError ''field %u does not exist'' [ArgUInt (pckReadTagIdEff r fid)]) \<and>
      pckReadStr r fid False sdv =
           Inl (FormatError ''field %u does not exist'' [ArgUInt (pckReadTagIdEff r fid)])"
    by (simp add: e pckReadBin_def pckReadStr_def)
qed

text \<open>
  Claim C4 at a failing input. The pack holds the string "a" at ID 1 and the U32 99 at
  ID 5, so that no field has the ID 3. \<open>pckReadU32\<close> at ID 3 neither returns the default
  42 with \<open>defaultNull\<close> nor raises "field 3 does not exist" without it: on its way past
  the string it leaves the size and the payload of the string in the input (the guard of
  the skip in \<open>pckReadTag\<close> looks at the requested type, not at the type of the field
  passed), parses the size byte as a tag at ID 3 and raises "field 3 is type 'unknown'
  but expected 'u32'". On the pack with the U32 7 at ID 1 in place of the string the same reads
  return 42 and raise "field 3 does not exist".
\<close>

theorem pckRead_absent_failing_input:
  "pckWritePack (pckWriteNewBuf [] 0) [WriteStr (Some [0x61]) 1 False None, WriteU32 99 5 False 0] =
     Inr [0x88, 0x01, 0x61, 0xAB, 0x63, 0x00] \<and>
   pckReadU32 (pckReadNewBuf [0x88, 0x01, 0x61, 0xAB, 0x63, 0x00]) 3 True 42 =
     Inl (FormatError fmtFieldType [ArgUInt 3, ArgStr ''unknown'', ArgStr ''u32'']) \<and>
   pckReadU32 (pckReadNewBuf [0x88, 0x01, 0x61, 0xAB, 0x63, 0x00]) 3 False 42 =
     Inl (FormatError fmtFieldType [ArgUInt 3, ArgStr ''unknown'', ArgStr ''u32'']) \<and>
   pckWritePack (pckWriteNewBuf [] 0) [WriteU32 7 1 False 0, WriteU32 99 5 False 0] =
     Inr [0xA8, 0x07, 0xAB, 0x63, 0x00] \<and>
   pckReadU32 (pckReadNewBuf [0xA8, 0x07, 0xAB, 0x63, 0x00]) 3 True 42 =
     Inr (42, (pckReadNewBuf [0xA8, 0x07, 0xAB, 0x63, 0x00])
            \<lparr>bufferPos := 4, tagNextId := 5, tagNextType := pckTypeU32, tagNextValue := 99,
             tagStackTop := \<lparr>frameType = pckTypeObj, idLast = 3, nullTotal = 0\<rparr>\<rparr>) \<and>
   pckReadU32 (pckReadNewBuf [0xA8, 0x07, 0xAB, 0x63, 0x00]) 3 False 42 =
     Inl (FormatError ''field %u does not exist'' [ArgUInt 3])"
  by (simp add: pckWrite_eval pckRead_eval)

text \<open>
  Claim C10. When a typed read with \<open>defaultNull\<close> finds its field absent (the body
  \<open>pckReadField\<close> that the typed reads share returns no value) it returns the default, and
  \<open>idLast\<close> of the current frame becomes the requested ID all the same, whether or not
  fields with lower IDs were passed on the way; any typed read that follows at an
  explicit ID less than or equal to it raises the format error "field N was already
  read".
\<close>

theorem pckRead_default_advances_idLast:
  assumes "pckReadField r fid True ty = Inr (None, r2)"
    and "fid2 \<noteq> 0" and "fid2 \<le> pckReadTagIdEff r fid"
  shows "idLast (tagStackTop r2) = pckReadTagIdEff r fid
    \<and> pckReadBin r fid True = Inr (None, r2)
    \<and> pckReadBool r fid True bdv0 = Inr (bdv0, r2)
    \<and> pckReadI32 r fid True i32dv0 = Inr (i32dv0, r2)
    \<and> pckReadI64 r fid True i64dv0 = Inr (i64dv0, r2)
    \<and> pckReadPtr r fid True = Inr (0, r2)
    \<and> pckReadStr r fid True sdv0 = Inr (sdv0, r2)
    \<and> pckReadTime r fid True tdv0 = Inr (tdv0, r2)
    \<and> pckReadU32 r fid True u32dv0 = Inr (u32dv0, r2)
    \<and> pckReadU64 r fid True u64dv0 = Inr (u64dv0, r2)
    \<and> pckReadBin r2 fid2 dn = Inl (FormatError ''field %u was already read'' [ArgUInt fid2])
    \<and> pckReadBool r2 fid2 dn bdv = Inl (FormatError ''field %u was already read'' [ArgUInt fid2])
    \<and> pckReadI32 r2 fid2 dn i32dv = Inl (FormatError ''field %u was already read'' [ArgUInt fid2])
    \<and> pckReadI64 r2 fid2 dn i64dv = Inl (FormatError ''field %u was already read'' [ArgUInt fid2])
    \<and> pckReadPtr r2 fid2 dn = Inl (FormatError ''field %u was already read'' [ArgUInt fid2])
    \<and> pckReadStr r2 fid2 dn sdv = Inl (FormatError ''field %u was already read'' [ArgUInt fid2])
    \<and> pckReadTime r2 fid2 dn tdv = Inl (FormatError ''field %u was already read'' [ArgUInt fid2])
    \<and> pckReadU32 r2 fid2 dn u32dv = Inl (FormatError ''field %u was already read'' [ArgUInt fid2])
    \<and> pckReadU64 r2 fid2 dn u64dv = Inl (FormatError ''field %u was already read'' [ArgUInt fid2])"
proof -
  from assms(1) obtain n where d: "pckReadDefaultNull r True fid = Inr (True, n, r2)"
    by (auto simp: pckReadField_def split: sum.splits if_splits)
  then have i: "idLast (tagStackTop r2) = pckReadTagIdEff r fid"
    by (auto simp: pckReadDefaultNull_def pckReadNullInternal_def pckReadTag_def
        pckReadTagIdEff_def Let_def split: sum.splits if_splits)
  from d have f: "pckReadField r fid True ty' = Inr (None, r2)" for ty'
    by (simp add: pckReadField_def)
  from i assms(3) have le: "fid2 \<le> idLast (tagStackTop r2)" by simp
  show ?thesis
    using i
    by (simp add: f pckReadField_already_read [OF assms(2) le]
      pckReadBin_def pckReadBool_def pckReadI32_def pckReadI64_def pckReadPtr_def pckReadStr_def
      pckReadTime_def pckReadU32_def pckReadU64_def)
qed

theorem pckRead_default_advances_idLast_witness:
  "pckReadField (pckReadNewBuf [0xA8, 0x07, 0xAB, 0x63, 0x00]) 3 True pckTypeU32 =
     Inr (None, (pckReadNewBuf [0xA8, 0x07, 0xAB, 0x63, 0x00])
            \<lparr>bufferPos := 4, tagNextId := 5, tagNextType := pckTypeU32, tagNextValue := 99,
             tagStackTop := \<lparr>frameType = pckTypeObj, idLast = 3, nullTotal = 0\<rparr>\<rparr>) \<and>
   pckReadU32 (pckReadNewBuf [0xA8, 0x07, 0xAB, 0x63, 0x00]) 3 True 42 =
     Inr (42, (pckReadNewBuf [0xA8, 0x07, 0xAB, 0x63, 0x00])
            \<lparr>bufferPos := 4, tagNextId := 5, tagNextType := pckTypeU32, tagNextValue := 99,
             tagStackTop := \<lparr>frameType = pckTypeObj, idLast = 3, nullTotal = 0\<rparr>\<rparr>) \<and>
   pckReadU32 ((pckReadNewBuf [0xA8, 0x07, 0xAB, 0x63, 0x00])
            \<lparr>bufferPos := 4, tagNextId := 5, tagNextType := pckTypeU32, tagNextValue := 99,
             tagStackTop := \<lparr>frameType = pckTypeObj, idLast = 3, nullTotal = 0\<rparr>\<rparr>) 1 False 0 =
     Inl (FormatError ''field %u was already read'' [ArgUInt 1]) \<and>
   pckReadU32 ((pckReadNewBuf [0xA8, 0x07, 0xAB, 0x63, 0x00])
            \<lparr>bufferPos := 4, tagNextId := 5, tagNextType := pckTypeU32, tagNextValue := 99,
             tagStackTop := \<lparr>frameType = pckTypeObj, idLast = 3, nullTotal = 0\<rparr>\<rparr>) 3 True 0 =
     Inl (FormatError ''field %u was already read'' [ArgUInt 3])"
proof -
  let ?r = "pckReadNewBuf [0xA8, 0x07, 0xAB, 0x63, 0x00]"
  let ?r2 = "?r\<lparr>bufferPos := 4, tagNextId := 5, tagNextType := pckTypeU32, tagNextValue := 99,
             tagStackTop := \<lparr>frameType = pckTypeObj, idLast = 3, nullTotal = 0\<rparr>\<rparr>"
  have 1: "pckReadField ?r 3 True pckTypeU32 = Inr (None, ?r2)"
    by (simp add: pckRead_eval)
  have 2: "(1 :: u32) \<noteq> 0" "(3 :: u32) \<noteq> 0" by simp_all
  have 3: "(1 :: u32) \<le> pckReadTagIdEff ?r 3" "(3 :: u32) \<le> pckReadTagIdEff ?r 3"
    by (simp_all add: pckReadTagIdEff_def)
  from pckRead_default_advances_idLast [OF 1 2(1) 3(1), where ?u32dv0.0 = 42 and dn = False
      and u32dv = 0]
  have a: "pckReadU32 ?r 3 True 42 = Inr (42, ?r2)"
    "pckReadU32 ?r2 1 False 0 = Inl (FormatError ''field %u was already read'' [ArgUInt 1])"
    by blast+
  from pckRead_default_advances_idLast [OF 1 2(2) 3(2), where dn = True and u32dv = 0]
  have b: "pckReadU32 ?r2 3 True 0 = Inl (FormatError ''field %u was already read'' [ArgUInt 3])"
    by blast
  from 1 a b show ?thesis by blast
qed

section \<open>What a peek consumes\<close>

lemma pckReadNull_lookahead:
  assumes "k = 0 \<or> idLast (tagStackTop r) < k" and "pckReadTagFill r = Inr r2"
    and "pckReadTagIdEff r k \<le> tagNextId r2"
  shows "pckReadNull r k = Inr (pckReadTagIdEff r k < tagNextId r2, r2) \<and>
         tagStack r2 = tagStack r \<and> tagStackTop r2 = tagStackTop r \<and>
         (tagNextId r \<noteq> 0 \<longrightarrow> r2 = r)"
  using pckReadNull_no_skip [OF assms] pckReadTagFill_frames [OF assms(2)] assms(2)
  by (auto simp: pckReadTagFill_def)

lemma pckReadNull_pending:
  assumes p: "pckReadPending r (ys @ zs) rest"
    and f: "k = 0 \<or> idLast (tagStackTop r) < k"
    and ys: "\<forall>y\<in>set ys. the (pckWriteOpId y) < pckReadTagIdEff r k"
    and le: "pckReadTagIdEff r k \<le> pckNextId zs"
  shows "(\<exists>r'. pckReadNull r k = Inr (pckReadTagIdEff r k < pckNextId zs, r') \<and>
            pckReadPending r' zs rest \<and> tagNextId r' = pckNextId zs \<and>
            tagStack r' = tagStack r \<and>
            tagStackTop r' = (tagStackTop r)
              \<lparr>idLast := last (idLast (tagStackTop r) # map (\<lambda>y. the (pckWriteOpId y)) ys)\<rparr>) \<and>
         (pckReadTagIdEff r k < 0xFFFFFFFF \<longrightarrow>
            (pckReadTagIdEff r k < pckNextId zs) =
            (pckReadTagIdEff r k \<notin> (\<lambda>x. the (pckWriteOpId x)) ` set (ys @ zs)))"
proof
  from pckReadTag_peek_pending [OF p f ys le] obtain r1 where
    r1: "pckReadTag r k pckTypeUnknown True = Inr (pckReadTagIdEff r k, tagNextValue r1, r1)"
      "pckReadPending r1 zs rest" "tagNextId r1 = pckNextId zs" "tagStack r1 = tagStack r"
      "tagStackTop r1 = (tagStackTop r)
         \<lparr>idLast := last (idLast (tagStackTop r) # map (\<lambda>y. the (pckWriteOpId y)) ys)\<rparr>"
    by blast
  from r1(1,3) have "pckReadNull r k = Inr (pckReadTagIdEff r k < pckNextId zs, r1)"
    by (simp add: pckReadNull_def pckReadNullInternal_def)
  with r1(2-5)
  show "\<exists>r'. pckReadNull r k = Inr (pckReadTagIdEff r k < pckNextId zs, r') \<and>
            pckReadPending r' zs rest \<and> tagNextId r' = pckNextId zs \<and>
            tagStack r' = tagStack r \<and>
            tagStackTop r' = (tagStackTop r)
              \<lparr>idLast := last (idLast (tagStackTop r) # map (\<lambda>y. the (pckWriteOpId y)) ys)\<rparr>"
    by blast
  from p have fl: "pckOpsFlat (idLast (tagStackTop r)) (ys @ zs)"
    by (simp add: pckReadPending_def)
  show "pckReadTagIdEff r k < 0xFFFFFFFF \<longrightarrow>
            (pckReadTagIdEff r k < pckNextId zs) =
            (pckReadTagIdEff r k \<notin> (\<lambda>x. the (pckWriteOpId x)) ` set (ys @ zs))"
    using pckNextId_absent [OF fl ys le] by blast
qed

lemma pckReadNull_elided_write:
  assumes a: "pckWriteOpElided x" "pckWriteOpId x = Some k" "idLast (wTagStackTop w) < k"
    "pckOpOk (pckFrameOf (wTagStackTop w)) (map pckFrameOf (wTagStack w)) y"
    "case pckWriteOpId y of Some k' \<Rightarrow> k < k' | None \<Rightarrow> k < 0xFFFFFFFF"
    "pckReadInv r" "tagNextId r = 0" "idLast (tagStackTop r) = idLast (wTagStackTop w)"
  shows "\<exists>w' bs. pckWriteOps w [x, y] = Inr w' \<and> pckWriteOutput w' = pckWriteOutput w @ bs \<and>
         (pckReadStream r = bs @ rest2 \<longrightarrow>
            (\<exists>r'. pckReadNull r k = Inr (True, r') \<and> tagStackTop r' = tagStackTop r \<and>
                  tagStack r' = tagStack r))"
proof -
  let ?w1 = "pckWriteNullTotalSet w (nullTotal (wTagStackTop w) + 1)"
  from a have x: "pckWriteOp w x = Inr ?w1" by (simp add: pckWriteOp_null)
  have fr: "pckFrameOf (wTagStackTop ?w1) = pckFrameOf (wTagStackTop w)"
    "wTagStack ?w1 = wTagStack w" "idLast (wTagStackTop ?w1) = idLast (wTagStackTop w)"
    "pckWriteOutput ?w1 = pckWriteOutput w"
    by (simp_all add: pckWriteNullTotalSet_def pckFrameOf_def)
  from a(4) fr have "pckOpOk (pckFrameOf (wTagStackTop ?w1)) (map pckFrameOf (wTagStack ?w1)) y"
    by simp
  from pckWriteOp_bytes [OF this] fr obtain w' where
    w': "pckWriteOp ?w1 y = Inr w'"
      "pckWriteOutput w' = pckWriteOutput w @ pckOpBytes (idLast (wTagStackTop w)) y"
    by auto
  have "\<exists>r'. pckReadNull r k = Inr (True, r') \<and> tagStackTop r' = tagStackTop r \<and>
          tagStack r' = tagStack r"
    if s: "pckReadStream r = pckOpBytes (idLast (wTagStackTop w)) y @ rest2"
  proof -
    from a(4,8) have ok: "pckOpOk (frameType (wTagStackTop w), idLast (tagStackTop r))
        (map pckFrameOf (wTagStack w)) y"
      by (simp add: pckFrameOf_def)
    from a(8) s have s': "pckReadStream r = pckOpBytes (idLast (tagStackTop r)) y @ rest2" by simp
    from a(3,8) have i: "idLast (tagStackTop r) < k" by simp
    from pckReadNull_elided [OF a(6,7) i ok a(5) s'] show ?thesis .
  qed
  with x w' show ?thesis by auto
qed


section \<open>What the end of a container consumes\<close>

lemma pckReadContainerEnd_pending:
  assumes p: "pckReadPending r xs rest" and st: "tagStack r = t # ts"
  shows "\<exists>r'. pckReadContainerEnd r = Inr r' \<and> pckReadStream r' = rest \<and> pckReadInv r' \<and>
           tagNextId r' = 0 \<and> tagStackTop r' = t \<and> tagStack r' = ts"
proof -
  from p have fl: "pckOpsFlat (idLast (tagStackTop r)) xs" by (simp add: pckReadPending_def)
  from pckOpsFlat_bound [OF fl] have l: "idLast (tagStackTop r) < 0xFFFFFFFE" .
  then have f: "(0xFFFFFFFE :: u32) = 0 \<or> idLast (tagStackTop r) < 0xFFFFFFFE"
    and e: "pckReadTagIdEff r 0xFFFFFFFE = 0xFFFFFFFE"
    by (simp_all add: pckReadTagIdEff_def)
  from p have p': "pckReadPending r (xs @ []) rest" by simp
  from pckOpsFlat_ids_bound [OF fl] e
  have ys: "\<forall>y\<in>set xs. the (pckWriteOpId y) < pckReadTagIdEff r 0xFFFFFFFE" by simp
  from e have le: "pckReadTagIdEff r 0xFFFFFFFE \<le> pckNextId []" by simp
  from pckReadTag_peek_pending [OF p' f ys le] e obtain r1 where
    r1: "pckReadTag r 0xFFFFFFFE pckTypeUnknown True = Inr (0xFFFFFFFE, tagNextValue r1, r1)"
      "pckReadPending r1 [] rest" "tagNextId r1 = pckNextId []" "tagStack r1 = tagStack r"
    by auto
  from r1(2,3) have "pckReadStream r1 = rest" "pckReadInv r1"
    by (simp_all add: pckReadPending_def)
  with r1(1,4) st show ?thesis
    by (simp add: pckReadContainerEnd_def)
qed

text \<open>
  Claim C7, as amended. \<open>pckReadArrayEnd\<close> (\<open>pckReadObjEnd\<close>) raises the format error "not
  in array" ("not in object") when the current frame is the outermost one or is not an
  array (an object). Otherwise, when the frame still holds fields that are neither
  containers nor have a size and payload behind their tags, its last ID and theirs below
  \<open>0xFFFFFFFE\<close> (the bytes \<open>pckOpsFlatBytes\<close> that the writer emits for such fields, then the
  terminator), whether the lookahead is empty or holds the tag of the first of them or
  the terminator, it consumes them and the terminator, pops the frame and clears the
  lookahead: the reader is left in the parent frame, without lookahead, just behind the
  container.
\<close>

theorem pckReadContainerEnd_skips:
  "(tagStack r = [] \<or> frameType (tagStackTop r) \<noteq> pckTypeArray \<longrightarrow>
      pckReadArrayEnd r = Inl (FormatError ''not in array'' [])) \<and>
   (tagStack r = [] \<or> frameType (tagStackTop r) \<noteq> pckTypeObj \<longrightarrow>
      pckReadObjEnd r = Inl (FormatError ''not in object'' [])) \<and>
   (pckOpsFlat (idLast (wTagStackTop w)) xs \<longrightarrow>
      (\<exists>w'. pckWriteOps w xs = Inr w' \<and>
            pckWriteOutput w' = pckWriteOutput w @ pckOpsFlatBytes (idLast (wTagStackTop w)) xs)) \<and>
   (pckReadPending r xs rest \<and> tagStack r = t # ts \<longrightarrow>
      (\<exists>r'. (if frameType (tagStackTop r) = pckTypeArray then pckReadArrayEnd r = Inr r'
             else if frameType (tagStackTop r) = pckTypeObj then pckReadObjEnd r = Inr r'
             else True) \<and>
            pckReadContainerEnd r = Inr r' \<and>
            pckReadStream r' = rest \<and> pckReadInv r' \<and> tagNextId r' = 0 \<and>
            tagStackTop r' = t \<and> tagStack r' = ts))"
  using pckOpsFlat_write [of w xs] pckReadContainerEnd_pending [of r xs rest t ts]
  by (auto simp: pckReadArrayEnd_def pckReadObjEnd_def)

lemma pckOpsFlatBytes_sparse:
  "pckOpsFlatBytes 0 [WriteU32 7 1 False 0, WriteU32 99 5 False 0] = [0xA8, 0x07, 0xAB, 0x63]"
  "pckOpsFlatBytes 5 [] = []"
  "pckOpsFlatBytes 0 [WriteBool True 1 False False, WriteU32 7 2 False 0] = [0x38, 0xA8, 0x07]"
  "pckOpsFlatBytes 1 [WriteU32 7 2 False 0] = [0xA8, 0x07]"
  by (simp_all add: pckOpBytes_def pckTagBytes_def pckWriteTagBits_def ptd_def Let_def
      pckUInt64Bytes_rec [of 7] pckUInt64Bytes_rec [of 99] word_le_nat_alt word_less_nat_alt)



theorem pckReadContainerEnd_skips_witness:
  "pckReadArrayEnd (pckReadNewBuf [0x10, 0x38, 0xA8, 0x07, 0x00, 0x38, 0x00]) =
     Inl (FormatError ''not in array'' []) \<and>
   pckReadObjEnd (pckReadNewBuf [0x10, 0x38, 0xA8, 0x07, 0x00, 0x38, 0x00]) =
     Inl (FormatError ''not in object'' []) \<and>
   pckOpsFlat 0 [WriteBool True 1 False False, WriteU32 7 2 False 0] \<and>
   (\<exists>w'. pckWriteOps (pckWriteNewBuf [] 0) [WriteBool True 1 False False, WriteU32 7 2 False 0] = Inr w' \<and>
         pckWriteOutput w' = [0x38, 0xA8, 0x07]) \<and>
   pckReadArrayBegin (pckReadNewBuf [0x10, 0x38, 0xA8, 0x07, 0x00, 0x38, 0x00]) 1 =
     Inr ((pckReadNewBuf [0x10, 0x38, 0xA8, 0x07, 0x00, 0x38, 0x00])
              \<lparr>bufferPos := 1, tagNextType := pckTypeArray,
               tagStack := [\<lparr>frameType = pckTypeObj, idLast = 1, nullTotal = 0\<rparr>],
               tagStackTop := \<lparr>frameType = pckTypeArray, idLast = 0, nullTotal = 0\<rparr>\<rparr>) \<and>
   pckReadPending
     ((pckReadNewBuf [0x10, 0x38, 0xA8, 0x07, 0x00, 0x38, 0x00])
              \<lparr>bufferPos := 1, tagNextType := pckTypeArray,
               tagStack := [\<lparr>frameType = pckTypeObj, idLast = 1, nullTotal = 0\<rparr>],
               tagStackTop := \<lparr>frameType = pckTypeArray, idLast = 0, nullTotal = 0\<rparr>\<rparr>)
     [WriteBool True 1 False False, WriteU32 7 2 False 0] [0x38, 0x00] \<and>
   (\<exists>r'. pckReadArrayEnd
           ((pckReadNewBuf [0x10, 0x38, 0xA8, 0x07, 0x00, 0x38, 0x00])
              \<lparr>bufferPos := 1, tagNextType := pckTypeArray,
               tagStack := [\<lparr>frameType = pckTypeObj, idLast = 1, nullTotal = 0\<rparr>],
               tagStackTop := \<lparr>frameType = pckTypeArray, idLast = 0, nullTotal = 0\<rparr>\<rparr>) = Inr r' \<and>
         pckReadStream r' = [0x38, 0x00] \<and> tagNextId r' = 0 \<and>
         tagStackTop r' = \<lparr>frameType = pckTypeObj, idLast = 1, nullTotal = 0\<rparr> \<and> tagStack r' = []) \<and>
   pckReadNext
     ((pckReadNewBuf [0x10, 0x38, 0xA8, 0x07, 0x00, 0x38, 0x00])
              \<lparr>bufferPos := 1, tagNextType := pckTypeArray,
               tagStack := [\<lparr>frameType = pckTypeObj, idLast = 1, nullTotal = 0\<rparr>],
               tagStackTop := \<lparr>frameType = pckTypeArray, idLast = 0, nullTotal = 0\<rparr>\<rparr>) =
     Inr (True, (pckReadNewBuf [0x10, 0x38, 0xA8, 0x07, 0x00, 0x38, 0x00])
              \<lparr>bufferPos := 2, tagNextId := 1, tagNextType := pckTypeBool, tagNextValue := 1,
               tagStack := [\<lparr>frameType = pckTypeObj, idLast = 1, nullTotal = 0\<rparr>],
               tagStackTop := \<lparr>frameType = pckTypeArray, idLast = 0, nullTotal = 0\<rparr>\<rparr>) \<and>
   pckReadPending
     ((pckReadNewBuf [0x10, 0x38, 0xA8, 0x07, 0x00, 0x38, 0x00])
              \<lparr>bufferPos := 2, tagNextId := 1, tagNextType := pckTypeBool, tagNextValue := 1,
               tagStack := [\<lparr>frameType = pckTypeObj, idLast = 1, nullTotal = 0\<rparr>],
               tagStackTop := \<lparr>frameType = pckTypeArray, idLast = 0, nullTotal = 0\<rparr>\<rparr>)
     [WriteBool True 1 False False, WriteU32 7 2 False 0] [0x38, 0x00] \<and>
   (\<exists>r'. pckReadArrayEnd
           ((pckReadNewBuf [0x10, 0x38, 0xA8, 0x07, 0x00, 0x38, 0x00])
              \<lparr>bufferPos := 2, tagNextId := 1, tagNextType := pckTypeBool, tagNextValue := 1,
               tagStack := [\<lparr>frameType = pckTypeObj, idLast = 1, nullTotal = 0\<rparr>],
               tagStackTop := \<lparr>frameType = pckTypeArray, idLast = 0, nullTotal = 0\<rparr>\<rparr>) = Inr r' \<and>
         pckReadStream r' = [0x38, 0x00] \<and> tagNextId r' = 0 \<and>
         tagStackTop r' = \<lparr>frameType = pckTypeObj, idLast = 1, nullTotal = 0\<rparr> \<and> tagStack r' = [])"
proof -
  let ?b = "[0x10, 0x38, 0xA8, 0x07, 0x00, 0x38, 0x00] :: byte list"
  let ?t = "\<lparr>frameType = pckTypeObj, idLast = 1, nullTotal = 0\<rparr>"
  let ?r = "(pckReadNewBuf ?b)\<lparr>bufferPos := 1, tagNextType := pckTypeArray,
               tagStack := [?t],
               tagStackTop := \<lparr>frameType = pckTypeArray, idLast = 0, nullTotal = 0\<rparr>\<rparr>"
  let ?q = "(pckReadNewBuf ?b)\<lparr>bufferPos := 2, tagNextId := 1, tagNextType := pckTypeBool,
               tagNextValue := 1, tagStack := [?t],
               tagStackTop := \<lparr>frameType = pckTypeArray, idLast = 0, nullTotal = 0\<rparr>\<rparr>"
  let ?xs = "[WriteBool True 1 False False, WriteU32 7 2 False 0]"
  have fl: "pckOpsFlat 0 ?xs"
    by simp
  have ab: "pckReadArrayBegin (pckReadNewBuf ?b) 1 = Inr ?r"
    by (simp add: pckRead_eval)
  have nx: "pckReadNext ?r = Inr (True, ?q)"
    by (simp add: pckReadNext_def pckRead_eval)
  have r: "pckReadInv ?r" "tagNextId ?r = 0" "idLast (tagStackTop ?r) = 0"
    "pckReadStream ?r = [0x38, 0xA8, 0x07] @ 0 # [0x38, 0x00]" "tagStack ?r = [?t]"
    "frameType (tagStackTop ?r) = pckTypeArray"
    by (simp_all add: pckReadNewBuf_def pckReadInv_def pckReadStream_def)
  have q: "pckReadInv ?q" "tagNextId ?q = 1" "idLast (tagStackTop ?q) = 0"
    "pckReadStream ?q = [0xA8, 0x07] @ 0 # [0x38, 0x00]" "tagStack ?q = [?t]"
    "frameType (tagStackTop ?q) = pckTypeArray" "tagNextType ?q = pckTypeBool"
    "tagNextValue ?q = 1"
    by (simp_all add: pckReadNewBuf_def pckReadInv_def pckReadStream_def)
  have pr: "pckReadPending ?r ?xs [0x38, 0x00]"
    using r(1-4) fl pckOpsFlatBytes_sparse(3)
    by (simp add: pckReadPending_def del: pckOpsFlatBytes.simps pckOpsFlat.simps)
  have pq: "pckReadPending ?q ?xs [0x38, 0x00]"
    using q(1-4,7,8) fl pckOpsFlatBytes_sparse(4)
    by (simp add: pckReadPending_def del: pckOpsFlatBytes.simps pckOpsFlat.simps)
  have w: "idLast (wTagStackTop (pckWriteNewBuf [] 0)) = 0" "pckWriteOutput (pckWriteNewBuf [] 0) = []"
    by (simp_all add: pckWriteNewBuf_def tagStackNew_def pckWriteOutput_def)
  from pckReadContainerEnd_skips [of "pckReadNewBuf ?b" "pckWriteNewBuf [] 0" ?xs]
  have 1: "pckReadArrayEnd (pckReadNewBuf ?b) = Inl (FormatError ''not in array'' [])"
    "pckReadObjEnd (pckReadNewBuf ?b) = Inl (FormatError ''not in object'' [])"
    by (simp_all add: pckReadNewBuf_def)
  from pckReadContainerEnd_skips [of ?r "pckWriteNewBuf [] 0" ?xs "[0x38, 0x00]" ?t "[]"]
    r(5,6) pr w fl pckOpsFlatBytes_sparse(3)
  have 2: "\<exists>w'. pckWriteOps (pckWriteNewBuf [] 0) ?xs = Inr w' \<and> pckWriteOutput w' = [0x38, 0xA8, 0x07]"
    and 3: "\<exists>r'. pckReadArrayEnd ?r = Inr r' \<and>
         pckReadStream r' = [0x38, 0x00] \<and> tagNextId r' = 0 \<and>
         tagStackTop r' = ?t \<and> tagStack r' = []"
    by (auto simp del: pckOpsFlat.simps pckOpsFlatBytes.simps pckWriteOps.simps)
  from pckReadContainerEnd_skips [of ?q "pckWriteNewBuf [] 0" ?xs "[0x38, 0x00]" ?t "[]"]
    q(5,6) pq
  have 4: "\<exists>r'. pckReadArrayEnd ?q = Inr r' \<and>
         pckReadStream r' = [0x38, 0x00] \<and> tagNextId r' = 0 \<and>
         tagStackTop r' = ?t \<and> tagStack r' = []"
    by (auto simp del: pckOpsFlat.simps pckOpsFlatBytes.simps pckWriteOps.simps)
  from 1 2 3 4 fl ab nx pr pq show ?thesis
    by (simp del: pckOpsFlat.simps pckOpsFlatBytes.simps pckWriteOps.simps)
qed

theorem pckReadObjEnd_sentinel_counterexample:
  "pckWritePack (pckWriteNewBuf [] 0) [WriteObjBegin 1, WriteU32 5 0xFFFFFFFE False 0, WriteObjEnd] =
     Inr [0x60, 0xAD, 0xFF, 0xFF, 0xFF, 0xFF, 0x03, 0x05, 0x00, 0x00] \<and>
   pckReadOps (pckReadNewBuf [0x60, 0xAD, 0xFF, 0xFF, 0xFF, 0xFF, 0x03, 0x05, 0x00, 0x00])
     [ReadObjBegin 1, ReadU32 0xFFFFFFFE False 0] =
     Inr ([ValVoid, ValU32 5],
          (pckReadNewBuf [0x60, 0xAD, 0xFF, 0xFF, 0xFF, 0xFF, 0x03, 0x05, 0x00, 0x00])
            \<lparr>bufferPos := 8, tagNextType := pckTypeU32, tagNextValue := 5,
             tagStack := [\<lparr>frameType = pckTypeObj, idLast = 1, nullTotal = 0\<rparr>],
             tagStackTop := \<lparr>frameType = pckTypeObj, idLast = 0xFFFFFFFE, nullTotal = 0\<rparr>\<rparr>) \<and>
   pckReadObjEnd
     ((pckReadNewBuf [0x60, 0xAD, 0xFF, 0xFF, 0xFF, 0xFF, 0x03, 0x05, 0x00, 0x00])
        \<lparr>bufferPos := 8, tagNextType := pckTypeU32, tagNextValue := 5,
         tagStack := [\<lparr>frameType = pckTypeObj, idLast = 1, nullTotal = 0\<rparr>],
         tagStackTop := \<lparr>frameType = pckTypeObj, idLast = 0xFFFFFFFE, nullTotal = 0\<rparr>\<rparr>) =
     Inl (FormatError ''field %u was already read'' [ArgUInt 0xFFFFFFFE])"
  by (simp add: pckWrite_eval pckReadOps_eval)

text \<open>
  A Bin with a payload left unread in an array: the end of the array passes its tag but
  leaves its size and payload in the input, and the read that follows in the parent
  frame fails.
\<close>

lemma pckReadArrayEnd_payload_left:
  "pckWritePack (pckWriteNewBuf [] 0)
     [WriteArrayBegin 1, WriteBin (Some [0x00]) 1 False, WriteArrayEnd, WriteBool True 2 False False] =
     Inr [0x10, 0x28, 0x01, 0x00, 0x00, 0x38, 0x00] \<and>
   pckReadOps (pckReadNewBuf [0x10, 0x28, 0x01, 0x00, 0x00, 0x38, 0x00])
     [ReadArrayBegin 1, ReadArrayEnd, ReadBool 2 False False] =
     Inl (FormatError ''field %u does not exist'' [ArgUInt 2])"
  by (simp add: pckWrite_eval pckReadOps_eval)

end
